theory Spec2Isabelle
  imports Main
begin

section \<open>Command sets (src/commands/cmdset.py)\<close>

subsection \<open>Command descriptors\<close>

text \<open>
  Modelled from the spec: the Command class is not among the sources. The spec asks of a
  descriptor a \<open>key\<close> string and an equality by key. The source of the command set
  reads two more things of a descriptor: the attribute \<open>obj\<close>, which may be missing
  (\<open>hasattr(cmd, 'obj')\<close>), and, through \<open>set(...)\<close>, its hash. So a descriptor is a
  record of the key, the value \<open>cmd_hash\<close> that \<open>hash(cmd)\<close> returns, and the attribute
  \<open>cmd_obj\<close>: \<open>None\<close> when the attribute is missing, \<open>Some v\<close> when it is there with
  value \<open>v\<close> (\<open>v\<close> is \<open>None\<close> for Python's None, or a database object).
  The hash is left open: Python's default hash gives every object its own value, a hash
  derived from the key gives descriptors of one key one value.
\<close>

type_synonym dbobj = nat

record command =
  cmd_key :: string
  cmd_hash :: int
  cmd_obj :: "dbobj option option"

text \<open>Modelled from the spec: \<open>cmd == othercmd\<close>, the \<open>__eq__\<close> of the missing Command
  class, is equality by key.\<close>

definition cmd_eq :: "command \<Rightarrow> command \<Rightarrow> bool" where
  "cmd_eq c d = (cmd_key c = cmd_key d)"

text \<open>
  Descriptors are objects: a command set holds references to them, several sets may
  hold the same descriptor, and \<open>add\<close> writes to one in place. A reference to a
  descriptor is an index into the list of all descriptors.
\<close>

type_synonym cref = nat

text \<open>
  What \<open>add\<close>, \<open>get\<close> and \<open>instantiate\<close> are given: a command instance, a command class
  (a callable; calling it gives a new instance, here with the given fields), or None.
\<close>

datatype addable = Instance cref | CmdClass command | NoCmd

text \<open>
  \<open>list(set(cmds))\<close>: Python's set holds one element of every group of elements with
  equal hash that compare equal, the one inserted first (an object is of the same hash
  and key as itself, so one that stands twice in the list is held once). The order in
  which a set lists its elements is not specified; the model lists them in the order of
  insertion, and no statement below depends on that order.
\<close>

definition same_entry :: "command \<Rightarrow> command \<Rightarrow> bool" where
  "same_entry c d = (cmd_hash c = cmd_hash d \<and> cmd_eq c d)"

fun list_set :: "command list \<Rightarrow> cref list \<Rightarrow> cref list" where
  "list_set ds [] = []"
| "list_set ds (c # cs) =
     c # list_set ds (filter (\<lambda>d. \<not> same_entry (ds ! c) (ds ! d)) cs)"

subsection \<open>The CmdSet class and the heap\<close>

record cmdset =
  key :: string
  mergetype :: string
  priority :: int
  duplicates :: bool
  key_mergetypes :: "string \<rightharpoonup> string"
  no_exits :: bool
  no_objs :: bool
  no_channels :: bool
  commands :: "cref list"
  actual_mergetype :: string
  cmdsetobj :: "dbobj option"

text \<open>
  Command sets are objects too: \<open>copy_this\<close> creates one, \<open>add\<close> changes one in place,
  and \<open>__add__\<close> may return its own receiver. The heap lists the command sets and the
  descriptors created so far; a reference is an index, and creating an object appends
  to the list. The list of commands of a set is a value: every list that a new set
  receives is a fresh one (a slice copy, a comprehension, or the empty list of
  \<open>__init__\<close>).
\<close>

type_synonym ref = nat

record heap =
  cmdsets :: "cmdset list"
  descriptors :: "command list"

text \<open>\<open>CmdSet()\<close>: the class attributes, the key that the metaclass takes from the class name,
  and what \<open>__init__\<close> sets (\<open>at_cmdset_creation\<close> of the base class does nothing).\<close>

definition CmdSet_init :: cmdset where
  "CmdSet_init =
     \<lparr>key = ''CmdSet'', mergetype = ''Union'', priority = 0, duplicates = False,
      key_mergetypes = Map.empty, no_exits = False, no_objs = False, no_channels = False,
      commands = [], actual_mergetype = ''Union'', cmdsetobj = None\<rparr>"

definition new_CmdSet :: "heap \<Rightarrow> ref \<times> heap" where
  "new_CmdSet h = (length (cmdsets h), h\<lparr>cmdsets := cmdsets h @ [CmdSet_init]\<rparr>)"

text \<open>An assignment to fields of the command set behind a reference.\<close>

definition update_at :: "heap \<Rightarrow> ref \<Rightarrow> (cmdset \<Rightarrow> cmdset) \<Rightarrow> heap" where
  "update_at h s f = h\<lparr>cmdsets := (cmdsets h)[s := f (cmdsets h ! s)]\<rparr>"

text \<open>
  \<open>instantiate(cmd)\<close> followed by the test \<open>if cmd:\<close> of its callers: a class is called
  and gives a new descriptor, an instance passes through, None is false.
\<close>

definition instantiate :: "heap \<Rightarrow> addable \<Rightarrow> cref option \<times> heap" where
  "instantiate h cmd =
     (case cmd of
        Instance r \<Rightarrow> (Some r, h)
      | CmdClass c \<Rightarrow> (Some (length (descriptors h)), h\<lparr>descriptors := descriptors h @ [c]\<rparr>)
      | NoCmd \<Rightarrow> (None, h))"

text \<open>
  \<open>CmdSet.add\<close>: the attribute \<open>obj\<close> is written on the descriptor itself, which the
  sets that hold it share; then the descriptor is appended and the list run through
  \<open>set(...)\<close>.
\<close>

definition add :: "heap \<Rightarrow> ref \<Rightarrow> addable \<Rightarrow> heap" where
  "add h self cmd =
     (case instantiate h cmd of
        (None, h1) \<Rightarrow> h1
      | (Some r, h1) \<Rightarrow>
          (let h2 = (if cmd_obj (descriptors h1 ! r) = None
                     then h1\<lparr>descriptors := (descriptors h1)
                            [r := (descriptors h1 ! r)\<lparr>cmd_obj := Some (cmdsetobj (cmdsets h1 ! self))\<rparr>]\<rparr>
                     else h1);
               h3 = update_at h2 self (\<lambda>s. s\<lparr>commands := commands s @ [r]\<rparr>)
           in update_at h3 self (\<lambda>s. s\<lparr>commands := list_set (descriptors h3) (commands s)\<rparr>)))"

text \<open>\<open>CmdSet.get\<close>: the first stored command equal to the given one, or None.\<close>

definition get :: "heap \<Rightarrow> ref \<Rightarrow> addable \<Rightarrow> addable \<times> heap" where
  "get h self cmd =
     (case instantiate h cmd of
        (None, h1) \<Rightarrow> (NoCmd, h1)
      | (Some r, h1) \<Rightarrow>
          (case find (\<lambda>thiscmd. cmd_eq (descriptors h1 ! thiscmd) (descriptors h1 ! r))
                  (commands (cmdsets h1 ! self)) of
             None \<Rightarrow> (NoCmd, h1)
           | Some thiscmd \<Rightarrow> (Instance thiscmd, h1)))"

text \<open>\<open>CmdSet.__contains__\<close>.\<close>

definition contains :: "heap \<Rightarrow> ref \<Rightarrow> cref \<Rightarrow> bool" where
  "contains h self othercmd =
     list_ex (\<lambda>cmd. cmd_eq (descriptors h ! cmd) (descriptors h ! othercmd))
       (commands (cmdsets h ! self))"

text \<open>\<open>CmdSet.get_system_cmds\<close>.\<close>

definition is_system_cmd :: "command \<Rightarrow> bool" where
  "is_system_cmd cmd = (length (cmd_key cmd) > 2 \<and> take 2 (cmd_key cmd) = ''__'')"

definition get_system_cmds :: "heap \<Rightarrow> ref \<Rightarrow> cref list" where
  "get_system_cmds h self =
     filter (\<lambda>cmd. is_system_cmd (descriptors h ! cmd)) (commands (cmdsets h ! self))"

text \<open>\<open>CmdSet.copy_this\<close>: a new command set with the settings of this one and no commands
  (the deep copy of the dictionary is the same dictionary as a value).\<close>

definition copy_this :: "heap \<Rightarrow> ref \<Rightarrow> ref \<times> heap" where
  "copy_this h s =
     (let (c, h1) = new_CmdSet h
      in (c, update_at h1 c (\<lambda>cmdset. cmdset
            \<lparr>key := key (cmdsets h1 ! s), cmdsetobj := cmdsetobj (cmdsets h1 ! s),
             no_exits := no_exits (cmdsets h1 ! s), no_objs := no_objs (cmdsets h1 ! s),
             no_channels := no_channels (cmdsets h1 ! s),
             mergetype := mergetype (cmdsets h1 ! s),
             priority := priority (cmdsets h1 ! s), duplicates := duplicates (cmdsets h1 ! s),
             key_mergetypes := key_mergetypes (cmdsets h1 ! s)\<rparr>)))"

subsection \<open>The four merge operations\<close>

text \<open>\<open>union(cmdset_a, cmdset_b, duplicates)\<close>. (\<open>union\<close> and \<open>remove\<close> are constants of
  HOL already, so the two functions of these names carry a suffix.)\<close>

definition union_op :: "heap \<Rightarrow> ref \<Rightarrow> ref \<Rightarrow> bool \<Rightarrow> ref \<times> heap" where
  "union_op h a b dup =
     (let (c, h1) = copy_this h a;
          h2 = update_at h1 c (\<lambda>cmdset_c. cmdset_c\<lparr>commands := commands (cmdsets h1 ! a)\<rparr>)
      in if dup \<and> priority (cmdsets h2 ! a) = priority (cmdsets h2 ! b)
         then (c, update_at h2 c (\<lambda>cmdset_c. cmdset_c
                    \<lparr>commands := commands cmdset_c @ commands (cmdsets h2 ! b)\<rparr>))
         else (c, update_at h2 c (\<lambda>cmdset_c. cmdset_c
                    \<lparr>commands := commands cmdset_c @
                       filter (\<lambda>cmd. \<not> contains h2 a cmd) (commands (cmdsets h2 ! b))\<rparr>)))"

text \<open>The loop of \<open>intersect\<close> over the commands of A that are in B.\<close>

fun intersect_loop :: "heap \<Rightarrow> ref \<Rightarrow> ref \<Rightarrow> cref list \<Rightarrow> heap" where
  "intersect_loop h c b [] = h"
| "intersect_loop h c b (cmd # rest) =
     (let h1 = add h c (Instance cmd);
          (found, h2) = get h1 b (Instance cmd);
          h3 = add h2 c found
      in intersect_loop h3 c b rest)"

text \<open>\<open>intersect(cmdset_a, cmdset_b, duplicates)\<close>.\<close>

definition intersect :: "heap \<Rightarrow> ref \<Rightarrow> ref \<Rightarrow> bool \<Rightarrow> ref \<times> heap" where
  "intersect h a b dup =
     (let (c, h1) = copy_this h a
      in if dup \<and> priority (cmdsets h1 ! a) = priority (cmdsets h1 ! b)
         then (c, intersect_loop h1 c b
                    (filter (\<lambda>cmd. contains h1 b cmd) (commands (cmdsets h1 ! a))))
         else (c, update_at h1 c (\<lambda>cmdset_c. cmdset_c
                    \<lparr>commands := filter (\<lambda>cmd. contains h1 b cmd) (commands (cmdsets h1 ! a))\<rparr>)))"

text \<open>\<open>replace(cmdset_a, cmdset_b, cmdset_c)\<close>: the third argument is overwritten at once.\<close>

definition replace :: "heap \<Rightarrow> ref \<Rightarrow> ref \<Rightarrow> bool \<Rightarrow> ref \<times> heap" where
  "replace h a b dup =
     (let (c, h1) = copy_this h a
      in (c, update_at h1 c (\<lambda>cmdset_c. cmdset_c\<lparr>commands := commands (cmdsets h1 ! a)\<rparr>)))"

text \<open>\<open>remove(cmdset_a, cmdset_b, cmdset_c)\<close>: B filtered by A, with the settings of A.\<close>

definition remove_op :: "heap \<Rightarrow> ref \<Rightarrow> ref \<Rightarrow> bool \<Rightarrow> ref \<times> heap" where
  "remove_op h a b dup =
     (let (c, h1) = copy_this h a
      in (c, update_at h1 c (\<lambda>cmdset_c. cmdset_c
               \<lparr>commands := filter (\<lambda>cmd. \<not> contains h1 a cmd) (commands (cmdsets h1 ! b))\<rparr>)))"

subsection \<open>The merge operator\<close>

text \<open>\<open>dict.get(k, default)\<close>.\<close>

definition dict_get :: "(string \<rightharpoonup> string) \<Rightarrow> string \<Rightarrow> string \<Rightarrow> string" where
  "dict_get d k dflt = (case d k of None \<Rightarrow> dflt | Some v \<Rightarrow> v)"

text \<open>The merge type that \<open>__add__\<close> looks up, in either branch.\<close>

definition effective_mergetype :: "cmdset \<Rightarrow> cmdset \<Rightarrow> string" where
  "effective_mergetype self cmdset_b =
     (if priority self \<ge> priority cmdset_b
      then dict_get (key_mergetypes self) (key cmdset_b) (mergetype self)
      else dict_get (key_mergetypes cmdset_b) (key self) (mergetype cmdset_b))"

text \<open>The last loop of \<open>__add__\<close>: the system commands are added to the new set.\<close>

fun add_all :: "heap \<Rightarrow> ref \<Rightarrow> cref list \<Rightarrow> heap" where
  "add_all h c [] = h"
| "add_all h c (cmd # rest) = add_all (add h c (Instance cmd)) c rest"

text \<open>
  \<open>CmdSet.__add__\<close>. The class defines neither \<open>__len__\<close> nor \<open>__nonzero__\<close>, so
  \<open>not cmdset_b\<close> holds of None only: the second operand is \<open>None\<close> or a reference.
  In the branch for \<open>self.priority < cmdset_b.priority\<close> three of the four calls swap
  the operands; the call of \<open>remove\<close> does not.
\<close>

definition CmdSet_add :: "heap \<Rightarrow> ref \<Rightarrow> ref option \<Rightarrow> ref \<times> heap" where
  "CmdSet_add h self other =
     (case other of
        None \<Rightarrow> (self, h)
      | Some cmdset_b \<Rightarrow>
          (let sys_commands = get_system_cmds h self @ get_system_cmds h cmdset_b;
               mt = effective_mergetype (cmdsets h ! self) (cmdsets h ! cmdset_b);
               (cmdset_c, h1) =
                 (if priority (cmdsets h ! self) \<ge> priority (cmdsets h ! cmdset_b)
                  then
                    if mt = ''Intersect''
                    then intersect h self cmdset_b (duplicates (cmdsets h ! cmdset_b))
                    else if mt = ''Replace''
                    then replace h self cmdset_b (duplicates (cmdsets h ! cmdset_b))
                    else if mt = ''Remove''
                    then remove_op h self cmdset_b (duplicates (cmdsets h ! cmdset_b))
                    else union_op h self cmdset_b (duplicates (cmdsets h ! cmdset_b))
                  else
                    if mt = ''Intersect''
                    then intersect h cmdset_b self (duplicates (cmdsets h ! self))
                    else if mt = ''Replace''
                    then replace h cmdset_b self (duplicates (cmdsets h ! self))
                    else if mt = ''Remove''
                    then remove_op h self cmdset_b (duplicates (cmdsets h ! self))
                    else union_op h cmdset_b self (duplicates (cmdsets h ! self)));
               h2 = update_at h1 cmdset_c (\<lambda>c. c\<lparr>actual_mergetype := mt\<rparr>)
           in (cmdset_c, add_all h2 cmdset_c sys_commands)))"

subsection \<open>The merge as a function of the two operands\<close>

text \<open>
  The definitions above follow the source through the heap. The ones below give the
  fields of the one command set that each operation creates, as functions of the
  operands and of the descriptors, and the descriptors after the operation; the lemmas
  \<open>union_op_eq\<close> to \<open>CmdSet_add_eq\<close> prove that the operations on the heap create
  exactly this set, leave exactly these descriptors, and change nothing else.
\<close>

definition fresh_copy :: "cmdset \<Rightarrow> cmdset" where
  "fresh_copy s = CmdSet_init
     \<lparr>key := key s, cmdsetobj := cmdsetobj s, no_exits := no_exits s, no_objs := no_objs s,
      no_channels := no_channels s, mergetype := mergetype s, priority := priority s,
      duplicates := duplicates s, key_mergetypes := key_mergetypes s\<rparr>"

text \<open>The write of \<open>add\<close> to the descriptor \<open>r\<close>, and \<open>add\<close> of an instance as a function of
  the receiver and the descriptors.\<close>

definition stamp :: "command list \<Rightarrow> dbobj option \<Rightarrow> cref \<Rightarrow> command list" where
  "stamp ds ob r =
     (if cmd_obj (ds ! r) = None then ds[r := (ds ! r)\<lparr>cmd_obj := Some ob\<rparr>] else ds)"

definition add_v :: "cmdset \<times> command list \<Rightarrow> cref \<Rightarrow> cmdset \<times> command list" where
  "add_v p r =
     (let ds' = stamp (snd p) (cmdsetobj (fst p)) r
      in ((fst p)\<lparr>commands := list_set ds' (commands (fst p) @ [r])\<rparr>, ds'))"

definition contains_v :: "command list \<Rightarrow> cmdset \<Rightarrow> cref \<Rightarrow> bool" where
  "contains_v ds s r = list_ex (\<lambda>cmd. cmd_eq (ds ! cmd) (ds ! r)) (commands s)"

definition get_v :: "command list \<Rightarrow> cmdset \<Rightarrow> cref \<Rightarrow> cref option" where
  "get_v ds s r = find (\<lambda>thiscmd. cmd_eq (ds ! thiscmd) (ds ! r)) (commands s)"

definition system_cmds :: "command list \<Rightarrow> cmdset \<Rightarrow> cref list" where
  "system_cmds ds s = filter (\<lambda>cmd. is_system_cmd (ds ! cmd)) (commands s)"

fun add_pairs :: "cmdset \<times> command list \<Rightarrow> cmdset \<Rightarrow> cref list \<Rightarrow> cmdset \<times> command list" where
  "add_pairs p B [] = p"
| "add_pairs p B (cmd # rest) =
     (let p1 = add_v p cmd
      in add_pairs (case get_v (snd p1) B cmd of None \<Rightarrow> p1 | Some t \<Rightarrow> add_v p1 t) B rest)"

fun add_list :: "cmdset \<times> command list \<Rightarrow> cref list \<Rightarrow> cmdset \<times> command list" where
  "add_list p [] = p"
| "add_list p (cmd # rest) = add_list (add_v p cmd) rest"

definition union_value :: "command list \<Rightarrow> cmdset \<Rightarrow> cmdset \<Rightarrow> bool \<Rightarrow> cmdset" where
  "union_value ds A B dup = (fresh_copy A)
     \<lparr>commands := commands A @
        (if dup \<and> priority A = priority B then commands B
         else filter (\<lambda>cmd. \<not> contains_v ds A cmd) (commands B))\<rparr>"

definition intersect_value ::
  "command list \<Rightarrow> cmdset \<Rightarrow> cmdset \<Rightarrow> bool \<Rightarrow> cmdset \<times> command list" where
  "intersect_value ds A B dup =
     (if dup \<and> priority A = priority B
      then add_pairs (fresh_copy A, ds) B (filter (\<lambda>cmd. contains_v ds B cmd) (commands A))
      else ((fresh_copy A)\<lparr>commands := filter (\<lambda>cmd. contains_v ds B cmd) (commands A)\<rparr>, ds))"

definition replace_value :: "cmdset \<Rightarrow> cmdset" where
  "replace_value A = (fresh_copy A)\<lparr>commands := commands A\<rparr>"

definition remove_value :: "command list \<Rightarrow> cmdset \<Rightarrow> cmdset \<Rightarrow> cmdset" where
  "remove_value ds A B = (fresh_copy A)
     \<lparr>commands := filter (\<lambda>cmd. \<not> contains_v ds A cmd) (commands B)\<rparr>"

definition policy_value :: "command list \<Rightarrow> cmdset \<Rightarrow> cmdset \<Rightarrow> cmdset \<times> command list" where
  "policy_value ds A B =
     (let mt = effective_mergetype A B
      in if priority A \<ge> priority B
         then if mt = ''Intersect'' then intersect_value ds A B (duplicates B)
              else if mt = ''Replace'' then (replace_value A, ds)
              else if mt = ''Remove'' then (remove_value ds A B, ds)
              else (union_value ds A B (duplicates B), ds)
         else if mt = ''Intersect'' then intersect_value ds B A (duplicates A)
              else if mt = ''Replace'' then (replace_value B, ds)
              else if mt = ''Remove'' then (remove_value ds A B, ds)
              else (union_value ds B A (duplicates A), ds))"

definition merge_value :: "command list \<Rightarrow> cmdset \<Rightarrow> cmdset \<Rightarrow> cmdset \<times> command list" where
  "merge_value ds A B =
     add_list ((fst (policy_value ds A B))\<lparr>actual_mergetype := effective_mergetype A B\<rparr>,
               snd (policy_value ds A B))
       (system_cmds ds A @ system_cmds ds B)"

subsection \<open>Notions used in the statements\<close>

text \<open>The key of the descriptor behind a reference, the keys of the commands of a set,
  and those of its system commands.\<close>

definition key_at :: "heap \<Rightarrow> cref \<Rightarrow> string" where
  "key_at h r = cmd_key (descriptors h ! r)"

definition keys_of :: "heap \<Rightarrow> cmdset \<Rightarrow> string set" where
  "keys_of h s = key_at h ` set (commands s)"

definition is_system :: "heap \<Rightarrow> cref \<Rightarrow> bool" where
  "is_system h r = is_system_cmd (descriptors h ! r)"

definition sys_keys :: "heap \<Rightarrow> cmdset \<Rightarrow> string set" where
  "sys_keys h s = key_at h ` set (filter (is_system h) (commands s))"

text \<open>The set that \<open>self + cmdset_b\<close> returns, for two references into the heap, and the
  heap after the merge.\<close>

definition merged :: "heap \<Rightarrow> ref \<Rightarrow> ref \<Rightarrow> cmdset" where
  "merged h a b = (let (c, h') = CmdSet_add h a (Some b) in cmdsets h' ! c)"

definition after :: "heap \<Rightarrow> ref \<Rightarrow> ref \<Rightarrow> heap" where
  "after h a b = snd (CmdSet_add h a (Some b))"

text \<open>The operand that \<open>__add__\<close> treats as the higher one (the left one on a tie), and the
  other one.\<close>

definition H_of :: "cmdset \<Rightarrow> cmdset \<Rightarrow> cmdset" where
  "H_of A B = (if priority A \<ge> priority B then A else B)"

definition L_of :: "cmdset \<Rightarrow> cmdset \<Rightarrow> cmdset" where
  "L_of A B = (if priority A \<ge> priority B then B else A)"

text \<open>The case in which \<open>union\<close> and \<open>intersect\<close> keep duplicates: equal priorities, and
  the duplicates flag of the operand that is not the higher one.\<close>

definition keeps_duplicates :: "cmdset \<Rightarrow> cmdset \<Rightarrow> bool" where
  "keeps_duplicates A B = (duplicates (L_of A B) \<and> priority A = priority B)"

text \<open>A set holds the descriptor \<open>r\<close> or, in its place, one of the same hash and key (what
  \<open>set(...)\<close> keeps of the two).\<close>

definition held :: "command list \<Rightarrow> cref list \<Rightarrow> cref \<Rightarrow> bool" where
  "held ds cs r = list_ex (\<lambda>y. same_entry (ds ! y) (ds ! r)) cs"

definition holds :: "heap \<Rightarrow> cmdset \<Rightarrow> cref \<Rightarrow> bool" where
  "holds h s r = held (descriptors h) (commands s) r"

text \<open>The commands of a set that are not system commands.\<close>

definition plain_cmds :: "heap \<Rightarrow> cmdset \<Rightarrow> cref list" where
  "plain_cmds h s = filter (\<lambda>r. \<not> is_system h r) (commands s)"

text \<open>Concrete descriptors and sets for the examples: a descriptor with an owner, one that
  lacks the attribute \<open>obj\<close>, and a set with the given key, priority, merge type,
  duplicates flag and commands.\<close>

definition a_cmd :: "string \<Rightarrow> int \<Rightarrow> dbobj \<Rightarrow> command" where
  "a_cmd k h ob = \<lparr>cmd_key = k, cmd_hash = h, cmd_obj = Some (Some ob)\<rparr>"

definition a_bare_cmd :: "string \<Rightarrow> int \<Rightarrow> command" where
  "a_bare_cmd k h = \<lparr>cmd_key = k, cmd_hash = h, cmd_obj = None\<rparr>"

definition a_set :: "string \<Rightarrow> int \<Rightarrow> string \<Rightarrow> bool \<Rightarrow> cref list \<Rightarrow> cmdset" where
  "a_set k p mt dup cs =
     CmdSet_init\<lparr>key := k, mergetype := mt, priority := p, duplicates := dup, commands := cs\<rparr>"

definition a_heap :: "cmdset list \<Rightarrow> command list \<Rightarrow> heap" where
  "a_heap sets ds = \<lparr>cmdsets = sets, descriptors = ds\<rparr>"

text \<open>The descriptors of the commands of a set, in a heap.\<close>

definition cmds_of :: "heap \<Rightarrow> cmdset \<Rightarrow> command list" where
  "cmds_of h s = map (\<lambda>r. descriptors h ! r) (commands s)"

text \<open>The commands that the merge operation chosen by \<open>__add__\<close> gives to the new set,
  before the system commands are added.\<close>

definition policy_cmds :: "heap \<Rightarrow> ref \<Rightarrow> ref \<Rightarrow> cref list" where
  "policy_cmds h a b =
     commands (fst (policy_value (descriptors h) (cmdsets h ! a) (cmdsets h ! b)))"

text \<open>The heap that extends the command sets \<open>st\<close> by one set, with the given descriptors.\<close>

definition heap_with :: "cmdset list \<Rightarrow> cmdset \<times> command list \<Rightarrow> heap" where
  "heap_with st p = \<lparr>cmdsets = st @ [fst p], descriptors = snd p\<rparr>"

text \<open>
  The commands of the receiver after \<open>add\<close> of one instance, of a list of instances
  (the last loop of \<open>__add__\<close>) and of the pairs of the loop of \<open>intersect\<close>, read
  with the descriptors \<open>ds\<close>: \<open>add\<close> changes no key and no hash.
\<close>

definition addc :: "command list \<Rightarrow> cref list \<Rightarrow> cref \<Rightarrow> cref list" where
  "addc ds cs r = list_set ds (cs @ [r])"

fun add_list_c :: "command list \<Rightarrow> cref list \<Rightarrow> cref list \<Rightarrow> cref list" where
  "add_list_c ds cs [] = cs"
| "add_list_c ds cs (r # rest) = add_list_c ds (addc ds cs r) rest"

fun add_pairs_c :: "command list \<Rightarrow> cref list \<Rightarrow> cmdset \<Rightarrow> cref list \<Rightarrow> cref list" where
  "add_pairs_c ds cs B [] = cs"
| "add_pairs_c ds cs B (r # rest) =
     add_pairs_c ds
       (case get_v ds B r of None \<Rightarrow> addc ds cs r | Some t \<Rightarrow> addc ds (addc ds cs r) t)
       B rest"

text \<open>Two lists of descriptors agree on keys and hashes; and \<open>ds'\<close> is \<open>ds\<close> but for
  descriptors among \<open>S\<close> that lacked the attribute \<open>obj\<close> and now have it with value
  \<open>ob\<close>.\<close>

definition agree :: "command list \<Rightarrow> command list \<Rightarrow> bool" where
  "agree ds ds' =
     (\<forall>r. cmd_key (ds' ! r) = cmd_key (ds ! r) \<and> cmd_hash (ds' ! r) = cmd_hash (ds ! r))"

definition stamped :: "command list \<Rightarrow> dbobj option \<Rightarrow> cref set \<Rightarrow> command list \<Rightarrow> bool" where
  "stamped ds ob S ds' =
     (length ds' = length ds \<and>
      (\<forall>r. ds' ! r = ds ! r \<or>
           (r \<in> S \<and> r < length ds \<and> cmd_obj (ds ! r) = None \<and>
            ds' ! r = (ds ! r)\<lparr>cmd_obj := Some ob\<rparr>)))"

section \<open>The command parser (src/commands/cmdparser.py)\<close>

subsection \<open>Strings\<close>

text \<open>The whitespace of \<open>str.strip()\<close> and \<open>str.split(None)\<close>: space, tab, line feed,
  vertical tab, form feed, carriage return.\<close>

definition isspace :: "char \<Rightarrow> bool" where
  "isspace c = (c \<in> set [CHR '' '', CHR 0x09, CHR 0x0A, CHR 0x0B, CHR 0x0C, CHR 0x0D])"

text \<open>\<open>s.strip()\<close>.\<close>

definition strip :: "string \<Rightarrow> string" where
  "strip s = rev (dropWhile isspace (rev (dropWhile isspace s)))"

text \<open>\<open>s.lower()\<close>: the letters A to Z become a to z.\<close>

definition lower_char :: "char \<Rightarrow> char" where
  "lower_char c =
     (let n = (of_char c :: nat) in if 65 \<le> n \<and> n \<le> 90 then char_of (n + 32) else c)"

definition lower :: "string \<Rightarrow> string" where
  "lower s = map lower_char s"

text \<open>\<open>s.split(None)\<close>: the maximal runs of characters that are not whitespace.\<close>

fun split_ws :: "string \<Rightarrow> string list" where
  "split_ws [] = []"
| "split_ws (c # cs) =
     (if isspace c then split_ws cs
      else if cs = [] \<or> isspace (hd cs) then [c] # split_ws cs
      else (case split_ws cs of [] \<Rightarrow> [[c]] | w # ws \<Rightarrow> (c # w) # ws))"

text \<open>\<open>s.split(" ")\<close>: the pieces between single spaces, empty pieces included.\<close>

fun split_sp :: "string \<Rightarrow> string list" where
  "split_sp [] = [[]]"
| "split_sp (c # cs) =
     (if c = CHR '' '' then [] # split_sp cs
      else (case split_sp cs of [] \<Rightarrow> [[c]] | w # ws \<Rightarrow> (c # w) # ws))"

text \<open>\<open>" ".join(words)\<close>.\<close>

fun join_sp :: "string list \<Rightarrow> string" where
  "join_sp [] = []"
| "join_sp [w] = w"
| "join_sp (w # ws) = w @ '' '' @ join_sp ws"

subsection \<open>The regular expression\<close>

text \<open>
  \<open>SPECIAL_CHARS\<close> is the list \<open>/ \ ' " : ; \- # = !\<close>, where the seventh entry is the
  two characters backslash and hyphen. \<open>REGEX\<close> is compiled from the pattern
  \<open>["/\'":;\-#=!"]\<close>: a character class in which each of the two backslashes escapes
  the character after it. The class therefore matches the nine characters below, and
  not the backslash.
\<close>

definition regex_chars :: "char list" where
  "regex_chars = [CHR 0x22, CHR ''/'', CHR 0x27, CHR '':'', CHR '';'', CHR ''-'',
                  CHR ''#'', CHR ''='', CHR ''!'']"

text \<open>\<open>REGEX.search(s)\<close>: None, or the index of the first character of the class
  (\<open>regex_result.start()\<close>).\<close>

fun REGEX_search :: "string \<Rightarrow> nat option" where
  "REGEX_search [] = None"
| "REGEX_search (c # cs) =
     (if c \<in> set regex_chars then Some 0
      else (case REGEX_search cs of None \<Rightarrow> None | Some i \<Rightarrow> Some (Suc i)))"

subsection \<open>Candidates\<close>

record candidate =
  cmdname :: string
  args :: string
  cand_priority :: nat
  obj_key :: "string option"

text \<open>\<open>CommandCandidate(cmdname, args=0, priority=0, obj_key=None)\<close>.\<close>

definition CommandCandidate :: "string \<Rightarrow> string \<Rightarrow> nat \<Rightarrow> string option \<Rightarrow> candidate" where
  "CommandCandidate n a p k = \<lparr>cmdname = n, args = a, cand_priority = p, obj_key = k\<rparr>"

datatype error = IndexError

text \<open>The inner loop of \<open>produce_candidates\<close>, which builds \<open>args\<close> (here \<open>argstr\<close>) from
  the words left.\<close>

fun build_args :: "string \<Rightarrow> string list \<Rightarrow> string" where
  "build_args argstr [] = argstr"
| "build_args argstr (word # rest) =
     (if argstr = [] \<or> (word \<noteq> [] \<and> REGEX_search [hd word] \<noteq> None)
      then build_args (argstr @ word) rest
      else build_args (argstr @ '' '' @ word) rest)"

text \<open>
  The outer loop of \<open>produce_candidates\<close>: \<open>todo\<close> rounds are left, \<open>n_words\<close> is the
  loop variable. \<open>wordlist.pop(0)\<close> raises IndexError on the empty list.
\<close>

fun produce_loop ::
  "nat \<Rightarrow> nat \<Rightarrow> string list \<Rightarrow> string list \<Rightarrow> candidate list \<Rightarrow> error + candidate list"
where
  "produce_loop 0 n_words wordlist cmdwords_list candidates = Inr candidates"
| "produce_loop (Suc todo) n_words wordlist cmdwords_list candidates =
     (case wordlist of
        [] \<Rightarrow> Inl IndexError
      | word # rest \<Rightarrow>
          (let cmdwords_list' = cmdwords_list @ [word];
               cmdwords = join_sp (map (\<lambda>word. lower (strip word)) cmdwords_list');
               args = build_args [] rest
           in produce_loop todo (Suc n_words) rest cmdwords_list'
                (candidates @ [CommandCandidate cmdwords args n_words None])))"

text \<open>\<open>produce_candidates(nr_candidates, wordlist)\<close>; \<open>range\<close> of a negative number is empty.\<close>

definition produce_candidates :: "int \<Rightarrow> string list \<Rightarrow> error + candidate list" where
  "produce_candidates nr_candidates wordlist = produce_loop (nat nr_candidates) 0 wordlist [] []"

subsection \<open>The parser\<close>

text \<open>The end of \<open>cmdparser\<close>, reached when there is no special character or when it
  lies beyond the allowed number of words.\<close>

definition run_normally :: "int \<Rightarrow> string \<Rightarrow> candidate list \<Rightarrow> error + candidate list" where
  "run_normally COMMAND_MAXLEN raw_string candidates =
     (let nr_candidates = min COMMAND_MAXLEN (int (length (split_ws raw_string)));
          wordlist = split_sp raw_string
      in case produce_candidates nr_candidates wordlist of
           Inl e \<Rightarrow> Inl e
         | Inr cs \<Rightarrow> Inr (candidates @ cs))"

text \<open>The part of \<open>cmdparser\<close> after the test for the form \<open><word>'s\<close>: the words up to
  the special character are tried as command names, if they are few enough; otherwise the
  parser runs normally.\<close>

definition run_to_end_char ::
  "int \<Rightarrow> string \<Rightarrow> nat \<Rightarrow> candidate list \<Rightarrow> error + candidate list" where
  "run_to_end_char COMMAND_MAXLEN raw_string end_index candidates =
     (let nr_candidates = length (split_ws (take end_index raw_string))
      in if int nr_candidates \<le> COMMAND_MAXLEN
         then (let wordlist = split_sp (take end_index raw_string) @
                              split_sp (drop end_index raw_string)
               in case produce_candidates (int nr_candidates) wordlist of
                    Inl e \<Rightarrow> Inl e
                  | Inr cs \<Rightarrow> Inr (candidates @ cs))
         else run_normally COMMAND_MAXLEN raw_string candidates)"

lemma REGEX_search_less: "REGEX_search s = Some i \<Longrightarrow> i < length s"
  by (induction s arbitrary: i) (auto split: if_splits option.splits)

lemma length_strip_le: "length (strip s) \<le> length s"
proof -
  have "length (strip s) \<le> length (dropWhile isspace s)"
    unfolding strip_def by (metis length_dropWhile_le length_rev)
  also have "\<dots> \<le> length s" by (rule length_dropWhile_le)
  finally show ?thesis .
qed

text \<open>
  \<open>cmdparser(raw_string)\<close>, with the setting \<open>COMMAND_MAXLEN\<close> as a parameter. An
  IndexError raised in \<open>produce_candidates\<close>, here or in the recursive call, leaves the
  function.
\<close>

function cmdparser :: "int \<Rightarrow> string \<Rightarrow> error + candidate list" where
  "cmdparser COMMAND_MAXLEN raw =
     (let raw_string = strip raw
      in case REGEX_search raw_string of
           None \<Rightarrow> run_normally COMMAND_MAXLEN raw_string []
         | Some end_index \<Rightarrow>
             (let end_char = raw_string ! end_index
              in if end_index = 0
                 then (let cmdwords = [end_char];
                           args = (if length raw_string > 1 then drop 1 raw_string else [])
                       in Inr [CommandCandidate cmdwords args 0 None])
                 else
                   (case (if end_char = CHR 0x27 \<and> length raw_string > end_index + 1 \<and>
                             take 2 (drop (end_index + 1) raw_string) = ''s ''
                          then (let obj_key = take end_index raw_string;
                                    alt_string = drop (end_index + 2) raw_string
                                in case cmdparser COMMAND_MAXLEN alt_string of
                                     Inl e \<Rightarrow> Inl e
                                   | Inr alt_candidates \<Rightarrow>
                                       Inr (map (\<lambda>candidate. candidate\<lparr>obj_key := Some obj_key\<rparr>)
                                              alt_candidates))
                          else Inr []) of
                      Inl e \<Rightarrow> Inl e
                    | Inr candidates \<Rightarrow>
                        run_to_end_char COMMAND_MAXLEN raw_string end_index candidates)))"
  by pat_completeness auto
termination
proof (relation "measure (\<lambda>(m, raw). length raw)", goal_cases)
  case 1
  show ?case by simp
next
  case (2 m raw s i c)
  have "i < length (strip raw)" using 2 by (simp add: REGEX_search_less)
  then have "length (drop (i + 2) (strip raw)) < length (strip raw)" by simp
  also have "\<dots> \<le> length raw" by (rule length_strip_le)
  finally show ?case using 2 by simp
qed

declare cmdparser.simps [simp del]

subsection \<open>Notions used in the statements about the parser\<close>

text \<open>The name that \<open>produce_candidates\<close> makes of the words taken so far, and its
  candidate number \<open>i\<close> for a list of words.\<close>

definition name_of_words :: "string list \<Rightarrow> string" where
  "name_of_words ws = join_sp (map (\<lambda>word. lower (strip word)) ws)"

definition nth_candidate :: "string list \<Rightarrow> nat \<Rightarrow> candidate" where
  "nth_candidate ws i =
     CommandCandidate (name_of_words (take (Suc i) ws)) (build_args [] (drop (Suc i) ws)) i None"

text \<open>A string whose only whitespace characters are spaces, and a string without any of
  the characters that \<open>REGEX\<close> matches.\<close>

definition only_spaces :: "string \<Rightarrow> bool" where
  "only_spaces s = list_all (\<lambda>ch. isspace ch \<longrightarrow> ch = CHR '' '') s"

definition special_free :: "string \<Rightarrow> bool" where
  "special_free s = list_all (\<lambda>ch. ch \<notin> set regex_chars) s"

text \<open>The test of \<open>cmdparser\<close> for the form \<open><word>'s \<close> at the index of the special
  character, and the assignment \<open>candidate.obj_key = obj_key\<close>.\<close>

definition object_form :: "string \<Rightarrow> nat \<Rightarrow> bool" where
  "object_form s p =
     (s ! p = CHR 0x27 \<and> length s > p + 1 \<and> take 2 (drop (p + 1) s) = ''s '')"

definition tag :: "string \<Rightarrow> candidate \<Rightarrow> candidate" where
  "tag k candidate = candidate\<lparr>obj_key := Some k\<rparr>"

text \<open>The candidates that \<open>run_normally\<close> and \<open>run_to_end_char\<close> add when
  \<open>produce_candidates\<close> has enough words (lemmas \<open>run_normally_ok\<close> and
  \<open>run_to_end_char_ok\<close>).\<close>

definition normal_candidates :: "int \<Rightarrow> string \<Rightarrow> candidate list" where
  "normal_candidates m s =
     map (nth_candidate (split_sp s)) [0..<nat (min m (int (length (split_ws s))))]"

definition plain_candidates :: "int \<Rightarrow> string \<Rightarrow> nat \<Rightarrow> candidate list" where
  "plain_candidates m s p =
     (if int (length (split_ws (take p s))) \<le> m
      then map (nth_candidate (split_sp (take p s) @ split_sp (drop p s)))
             [0..<length (split_ws (take p s))]
      else normal_candidates m s)"

section \<open>Properties of the command sets\<close>

subsection \<open>The operations on the heap create one set and change no other\<close>

lemma copy_this_eq:
  "s < length (cmdsets h) \<Longrightarrow>
   copy_this h s = (length (cmdsets h), heap_with (cmdsets h) (fresh_copy (cmdsets h ! s), descriptors h))"
  by (simp add: copy_this_def new_CmdSet_def update_at_def fresh_copy_def nth_append heap_with_def)

lemma update_at_last:
  "update_at (heap_with st p) (length st) f = heap_with st (f (fst p), snd p)"
  by (simp add: update_at_def heap_with_def)

lemma heap_with_simps:
  "cmdsets (heap_with st p) = st @ [fst p]"
  "descriptors (heap_with st p) = snd p"
  "s < length st \<Longrightarrow> cmdsets (heap_with st p) ! s = st ! s"
  "cmdsets (heap_with st p) ! length st = fst p"
  by (simp_all add: heap_with_def nth_append)

lemma contains_old:
  "s < length st \<Longrightarrow> contains (heap_with st p) s = contains_v (snd p) (st ! s)"
  by (simp add: fun_eq_iff contains_def contains_v_def heap_with_simps nth_append)

lemma add_eq: "add (heap_with st p) (length st) (Instance r) = heap_with st (add_v p r)"
  by (simp add: add_def instantiate_def update_at_def heap_with_def add_v_def stamp_def Let_def)

lemma add_NoCmd: "add h c NoCmd = h"
  by (simp add: add_def instantiate_def)

lemma get_eq:
  "b < length st \<Longrightarrow>
   get (heap_with st p) b (Instance r) =
     (case get_v (snd p) (st ! b) r of None \<Rightarrow> NoCmd | Some t \<Rightarrow> Instance t, heap_with st p)"
  by (simp add: get_def instantiate_def get_v_def heap_with_simps nth_append split: option.splits)

lemma intersect_loop_eq:
  "b < length st \<Longrightarrow>
   intersect_loop (heap_with st p) (length st) b cmds = heap_with st (add_pairs p (st ! b) cmds)"
proof (induction cmds arbitrary: p)
  case Nil
  show ?case by simp
next
  case (Cons x xs)
  show ?case
    by (cases "get_v (snd (add_v p x)) (st ! b) x")
       (simp_all add: add_eq get_eq[OF Cons.prems] add_NoCmd Cons.IH[OF Cons.prems] Let_def)
qed

lemma add_all_eq: "add_all (heap_with st p) (length st) cmds = heap_with st (add_list p cmds)"
  by (induction cmds arbitrary: p) (simp_all add: add_eq)

lemma union_op_eq:
  "a < length (cmdsets h) \<Longrightarrow> b < length (cmdsets h) \<Longrightarrow>
   union_op h a b dup =
     (length (cmdsets h),
      heap_with (cmdsets h)
        (union_value (descriptors h) (cmdsets h ! a) (cmdsets h ! b) dup, descriptors h))"
  by (simp add: union_op_def copy_this_eq update_at_last heap_with_simps union_value_def
      contains_old Let_def nth_append)

lemma replace_eq:
  "a < length (cmdsets h) \<Longrightarrow>
   replace h a b dup =
     (length (cmdsets h), heap_with (cmdsets h) (replace_value (cmdsets h ! a), descriptors h))"
  by (simp add: replace_def copy_this_eq update_at_last heap_with_simps replace_value_def nth_append)

lemma remove_op_eq:
  "a < length (cmdsets h) \<Longrightarrow> b < length (cmdsets h) \<Longrightarrow>
   remove_op h a b dup =
     (length (cmdsets h),
      heap_with (cmdsets h)
        (remove_value (descriptors h) (cmdsets h ! a) (cmdsets h ! b), descriptors h))"
  by (simp add: remove_op_def copy_this_eq update_at_last heap_with_simps remove_value_def
      contains_old nth_append)

lemma intersect_eq:
  "a < length (cmdsets h) \<Longrightarrow> b < length (cmdsets h) \<Longrightarrow>
   intersect h a b dup =
     (length (cmdsets h),
      heap_with (cmdsets h) (intersect_value (descriptors h) (cmdsets h ! a) (cmdsets h ! b) dup))"
  by (simp add: intersect_def copy_this_eq update_at_last heap_with_simps intersect_value_def
      contains_old intersect_loop_eq nth_append)

lemma get_system_cmds_eq: "get_system_cmds h s = system_cmds (descriptors h) (cmdsets h ! s)"
  by (simp add: get_system_cmds_def system_cmds_def)

lemma heap_with_fst_snd: "heap_with st (fst p, snd p) = heap_with st p"
  by simp

lemma CmdSet_add_eq:
  "a < length (cmdsets h) \<Longrightarrow> b < length (cmdsets h) \<Longrightarrow>
   CmdSet_add h a (Some b) =
     (length (cmdsets h),
      heap_with (cmdsets h) (merge_value (descriptors h) (cmdsets h ! a) (cmdsets h ! b)))"
  by (simp add: CmdSet_add_def union_op_eq replace_eq remove_op_eq intersect_eq
      update_at_last add_all_eq merge_value_def policy_value_def get_system_cmds_eq Let_def)

lemma merged_eq:
  "a < length (cmdsets h) \<Longrightarrow> b < length (cmdsets h) \<Longrightarrow>
   merged h a b = fst (merge_value (descriptors h) (cmdsets h ! a) (cmdsets h ! b))"
  by (simp add: merged_def CmdSet_add_eq heap_with_simps)

lemma after_eq:
  "a < length (cmdsets h) \<Longrightarrow> b < length (cmdsets h) \<Longrightarrow>
   after h a b =
     heap_with (cmdsets h) (merge_value (descriptors h) (cmdsets h ! a) (cmdsets h ! b))"
  by (simp add: after_def CmdSet_add_eq)

subsection \<open>The writes of \<open>add\<close> to descriptors\<close>

lemma agree_refl: "agree ds ds"
  by (simp add: agree_def)

lemma stamped_refl: "stamped ds ob S ds"
  by (simp add: stamped_def)

lemma stamped_agree: "stamped ds ob S ds' \<Longrightarrow> agree ds ds'"
  unfolding stamped_def agree_def by (metis command.select_convs(1,2) command.surjective command.update_convs(3))

lemma stamped_mono: "stamped ds ob S ds' \<Longrightarrow> S \<subseteq> T \<Longrightarrow> stamped ds ob T ds'"
  unfolding stamped_def by blast

lemma stamped_stamp:
  assumes "stamped ds ob S ds'" and "r \<in> S"
  shows "stamped ds ob S (stamp ds' ob r)"
proof (cases "cmd_obj (ds' ! r) = None \<and> r < length ds'")
  case False
  then have "stamp ds' ob r = ds'" by (auto simp: stamp_def list_update_beyond)
  with assms(1) show ?thesis by simp
next
  case True
  then have s: "stamp ds' ob r = ds'[r := (ds' ! r)\<lparr>cmd_obj := Some ob\<rparr>]"
    by (simp add: stamp_def)
  from assms(1) have len: "length ds' = length ds" by (simp add: stamped_def)
  have r: "ds' ! r = ds ! r"
  proof (rule ccontr)
    assume "ds' ! r \<noteq> ds ! r"
    with assms(1) have "ds' ! r = (ds ! r)\<lparr>cmd_obj := Some ob\<rparr>" by (auto simp: stamped_def)
    with True show False by simp
  qed
  show ?thesis
    unfolding stamped_def s
  proof (intro conjI allI)
    show "length (ds'[r := (ds' ! r)\<lparr>cmd_obj := Some ob\<rparr>]) = length ds" using len by simp
  next
    fix x
    show "ds'[r := (ds' ! r)\<lparr>cmd_obj := Some ob\<rparr>] ! x = ds ! x \<or>
          (x \<in> S \<and> x < length ds \<and> cmd_obj (ds ! x) = None \<and>
           ds'[r := (ds' ! r)\<lparr>cmd_obj := Some ob\<rparr>] ! x = (ds ! x)\<lparr>cmd_obj := Some ob\<rparr>)"
    proof (cases "x = r")
      case True
      with \<open>cmd_obj (ds' ! r) = None \<and> r < length ds'\<close> r len assms(2) show ?thesis by simp
    next
      case False
      with assms(1) show ?thesis by (auto simp: stamped_def)
    qed
  qed
qed

lemma same_entry_agree:
  "agree ds ds' \<Longrightarrow> same_entry (ds' ! c) (ds' ! d) = same_entry (ds ! c) (ds ! d)"
  by (simp add: agree_def same_entry_def cmd_eq_def)

lemma list_set_agree: "agree ds ds' \<Longrightarrow> list_set ds' xs = list_set ds xs"
proof (induction xs rule: list_set.induct[of _ ds])
  case (1 ds)
  show ?case by simp
next
  case (2 c cs)
  then show ?case by (simp add: same_entry_agree)
qed

lemma get_v_agree: "agree ds ds' \<Longrightarrow> get_v ds' B r = get_v ds B r"
  by (simp add: get_v_def agree_def cmd_eq_def)

lemma add_v_agree:
  assumes "stamped ds ob S (snd p)" and "cmdsetobj (fst p) = ob" and "r \<in> S"
  shows "stamped ds ob S (snd (add_v p r)) \<and>
         fst (add_v p r) = (fst p)\<lparr>commands := addc ds (commands (fst p)) r\<rparr>"
proof -
  have s: "stamped ds ob S (stamp (snd p) ob r)" using assms(1,3) by (rule stamped_stamp)
  from list_set_agree[OF stamped_agree[OF s]] s assms(2) show ?thesis
    by (simp add: add_v_def addc_def Let_def)
qed

lemma add_list_agree:
  assumes "stamped ds ob S (snd p)" and "cmdsetobj (fst p) = ob" and "set xs \<subseteq> S"
  shows "stamped ds ob S (snd (add_list p xs)) \<and>
         fst (add_list p xs) = (fst p)\<lparr>commands := add_list_c ds (commands (fst p)) xs\<rparr>"
  using assms
proof (induction xs arbitrary: p)
  case Nil
  then show ?case by simp
next
  case (Cons x xs)
  from add_v_agree[OF Cons.prems(1,2), of x] Cons.prems(3)
  have 1: "stamped ds ob S (snd (add_v p x))"
    and 2: "fst (add_v p x) = (fst p)\<lparr>commands := addc ds (commands (fst p)) x\<rparr>" by auto
  from 2 Cons.prems(2) have 3: "cmdsetobj (fst (add_v p x)) = ob" by simp
  from Cons.IH[OF 1 3] Cons.prems(3) show ?case by (simp add: 2)
qed

lemma get_v_member: "get_v ds B r = Some t \<Longrightarrow> t \<in> set (commands B) \<and> cmd_key (ds ! t) = cmd_key (ds ! r)"
  by (auto simp: get_v_def cmd_eq_def dest: find_Some_iff[THEN iffD1])

lemma add_pairs_agree:
  assumes "stamped ds ob S (snd p)" and "cmdsetobj (fst p) = ob" and "set xs \<subseteq> S"
    and "set (commands B) \<subseteq> S"
  shows "stamped ds ob S (snd (add_pairs p B xs)) \<and>
         fst (add_pairs p B xs) = (fst p)\<lparr>commands := add_pairs_c ds (commands (fst p)) B xs\<rparr>"
  using assms
proof (induction xs arbitrary: p)
  case Nil
  then show ?case by simp
next
  case (Cons x xs)
  let ?p1 = "add_v p x"
  from add_v_agree[OF Cons.prems(1,2), of x] Cons.prems(3)
  have 1: "stamped ds ob S (snd ?p1)"
    and 2: "fst ?p1 = (fst p)\<lparr>commands := addc ds (commands (fst p)) x\<rparr>" by auto
  from 2 Cons.prems(2) have 3: "cmdsetobj (fst ?p1) = ob" by simp
  have g: "get_v (snd ?p1) B x = get_v ds B x"
    using stamped_agree[OF 1] by (rule get_v_agree)
  show ?case
  proof (cases "get_v ds B x")
    case None
    from Cons.IH[OF 1 3] Cons.prems(3,4) show ?thesis by (simp add: g None 2 Let_def)
  next
    case (Some t)
    then have t: "t \<in> S" using get_v_member Cons.prems(4) by blast
    let ?p2 = "add_v ?p1 t"
    from add_v_agree[OF 1 3 t]
    have 4: "stamped ds ob S (snd ?p2)"
      and 5: "fst ?p2 = (fst ?p1)\<lparr>commands := addc ds (commands (fst ?p1)) t\<rparr>" by auto
    from 5 3 have 6: "cmdsetobj (fst ?p2) = ob" by simp
    from Cons.IH[OF 4 6] Cons.prems(3,4) show ?thesis by (simp add: g Some 5 2 Let_def)
  qed
qed

subsection \<open>What \<open>set(...)\<close> keeps\<close>

lemma same_entry_refl: "same_entry c c"
  by (simp add: same_entry_def cmd_eq_def)

lemma same_entry_trans: "same_entry c d \<Longrightarrow> same_entry d e \<Longrightarrow> same_entry c e"
  by (simp add: same_entry_def cmd_eq_def)

lemma held_iff: "held ds cs x \<longleftrightarrow> (\<exists>y \<in> set cs. same_entry (ds ! y) (ds ! x))"
  by (simp add: held_def list_ex_iff)

lemma held_self: "x \<in> set cs \<Longrightarrow> held ds cs x"
  unfolding held_iff using same_entry_refl by blast

lemma held_mono: "held ds xs x \<Longrightarrow> set xs \<subseteq> set ys \<Longrightarrow> held ds ys x"
  unfolding held_iff by blast

lemma set_list_set: "set (list_set ds xs) \<subseteq> set xs"
  by (induction ds xs rule: list_set.induct) auto

lemma keys_list_set:
  "(\<lambda>r. cmd_key (ds ! r)) ` set (list_set ds xs) = (\<lambda>r. cmd_key (ds ! r)) ` set xs"
proof (induction ds xs rule: list_set.induct)
  case (1 ds)
  show ?case by simp
next
  case (2 ds c cs)
  have "(\<lambda>r. cmd_key (ds ! r)) ` set (filter (\<lambda>d. \<not> same_entry (ds ! c) (ds ! d)) cs) \<union> {cmd_key (ds ! c)} =
        (\<lambda>r. cmd_key (ds ! r)) ` set cs \<union> {cmd_key (ds ! c)}"
    by (auto simp: same_entry_def cmd_eq_def)
  with 2 show ?case by auto
qed

lemma held_list_set: "held ds xs x \<Longrightarrow> held ds (list_set ds xs) x"
proof (induction ds xs rule: list_set.induct)
  case (1 ds)
  then show ?case by simp
next
  case (2 ds c cs)
  from "2.prems" obtain y where y: "y \<in> set (c # cs)" "same_entry (ds ! y) (ds ! x)"
    unfolding held_iff by blast
  show ?case
  proof (cases "same_entry (ds ! c) (ds ! y)")
    case True
    from True y(2) have "same_entry (ds ! c) (ds ! x)" by (rule same_entry_trans)
    then show ?thesis unfolding held_iff by auto
  next
    case False
    with y(1) same_entry_refl[of "ds ! c"] have "y \<in> set (filter (\<lambda>d. \<not> same_entry (ds ! c) (ds ! d)) cs)"
      by auto
    with y(2) have "held ds (filter (\<lambda>d. \<not> same_entry (ds ! c) (ds ! d)) cs) x"
      unfolding held_iff by blast
    from "2.IH"[OF this] show ?thesis unfolding held_iff by auto
  qed
qed

lemma length_filter_list_set:
  "length (filter Q (list_set ds xs)) \<le> length (filter Q xs)"
proof (induction ds xs rule: list_set.induct)
  case (1 ds)
  show ?case by simp
next
  case (2 ds c cs)
  have "length (filter Q (filter (\<lambda>d. \<not> same_entry (ds ! c) (ds ! d)) cs)) \<le> length (filter Q cs)"
    by (induction cs) auto
  with 2 show ?case by auto
qed

subsection \<open>The commands after \<open>add\<close>\<close>

lemma set_addc: "set (addc ds cs r) \<subseteq> insert r (set cs)"
  using set_list_set[of ds "cs @ [r]"] by (auto simp: addc_def)

lemma keys_addc:
  "(\<lambda>r. cmd_key (ds ! r)) ` set (addc ds cs r) = insert (cmd_key (ds ! r)) ((\<lambda>r. cmd_key (ds ! r)) ` set cs)"
  by (auto simp: addc_def keys_list_set)

lemma held_addc: "held ds cs x \<or> x = r \<Longrightarrow> held ds (addc ds cs r) x"
proof -
  assume "held ds cs x \<or> x = r"
  then have "held ds (cs @ [r]) x"
    using held_self[of x "cs @ [r]" ds] held_mono[of ds cs x "cs @ [r]"] by auto
  then show ?thesis unfolding addc_def by (rule held_list_set)
qed

lemma length_filter_addc:
  "\<not> Q r \<Longrightarrow> length (filter Q (addc ds cs r)) \<le> length (filter Q cs)"
  using length_filter_list_set[of Q ds "cs @ [r]"] by (simp add: addc_def)

lemma set_add_list_c: "set (add_list_c ds cs xs) \<subseteq> set cs \<union> set xs"
proof (induction xs arbitrary: cs)
  case Nil
  show ?case by simp
next
  case (Cons x xs)
  from Cons[of "addc ds cs x"] set_addc[of ds cs x] show ?case by auto
qed

lemma keys_add_list_c:
  "(\<lambda>r. cmd_key (ds ! r)) ` set (add_list_c ds cs xs) =
   (\<lambda>r. cmd_key (ds ! r)) ` set cs \<union> (\<lambda>r. cmd_key (ds ! r)) ` set xs"
  by (induction xs arbitrary: cs) (auto simp: keys_addc)

lemma held_add_list_c: "held ds cs x \<or> x \<in> set xs \<Longrightarrow> held ds (add_list_c ds cs xs) x"
proof (induction xs arbitrary: cs)
  case Nil
  then show ?case by simp
next
  case (Cons y ys)
  from Cons.prems have "held ds (addc ds cs y) x \<or> x \<in> set ys"
    using held_addc[of ds cs x y] by auto
  from Cons.IH[OF this] show ?case by simp
qed

lemma length_filter_add_list_c:
  "\<forall>x \<in> set xs. \<not> Q x \<Longrightarrow> length (filter Q (add_list_c ds cs xs)) \<le> length (filter Q cs)"
proof (induction xs arbitrary: cs)
  case Nil
  show ?case by simp
next
  case (Cons y ys)
  from Cons.prems have "length (filter Q (add_list_c ds (addc ds cs y) ys)) \<le> length (filter Q (addc ds cs y))"
    by (intro Cons.IH) simp
  also have "\<dots> \<le> length (filter Q cs)" using Cons.prems by (intro length_filter_addc) simp
  finally show ?case by simp
qed

lemma set_add_pairs_c:
  "set (add_pairs_c ds cs B xs) \<subseteq> set cs \<union> set xs \<union> set (commands B)"
proof (induction xs arbitrary: cs)
  case Nil
  show ?case by simp
next
  case (Cons x xs)
  show ?case
  proof (cases "get_v ds B x")
    case None
    from Cons[of "addc ds cs x"] set_addc[of ds cs x] show ?thesis by (auto simp: None)
  next
    case (Some t)
    then have t: "t \<in> set (commands B)" using get_v_member by blast
    from Cons[of "addc ds (addc ds cs x) t"] set_addc[of ds cs x] set_addc[of ds "addc ds cs x" t] t
    show ?thesis by (auto simp: Some)
  qed
qed

lemma keys_add_pairs_c:
  "(\<lambda>r. cmd_key (ds ! r)) ` set (add_pairs_c ds cs B xs) =
   (\<lambda>r. cmd_key (ds ! r)) ` set cs \<union> (\<lambda>r. cmd_key (ds ! r)) ` set xs"
proof (induction xs arbitrary: cs)
  case Nil
  show ?case by simp
next
  case (Cons x xs)
  show ?case
  proof (cases "get_v ds B x")
    case None
    then show ?thesis by (auto simp: Cons keys_addc)
  next
    case (Some t)
    then have "cmd_key (ds ! t) = cmd_key (ds ! x)" using get_v_member by blast
    then show ?thesis by (auto simp: Cons keys_addc Some)
  qed
qed

lemma held_add_pairs_c_mono: "held ds cs x \<Longrightarrow> held ds (add_pairs_c ds cs B xs) x"
proof (induction xs arbitrary: cs)
  case Nil
  then show ?case by simp
next
  case (Cons y ys)
  show ?case
  proof (cases "get_v ds B y")
    case None
    from Cons.IH[of "addc ds cs y"] Cons.prems held_addc[of ds cs x y] show ?thesis
      by (simp add: None)
  next
    case (Some t)
    from Cons.IH[of "addc ds (addc ds cs y) t"] Cons.prems held_addc[of ds cs x y]
      held_addc[of ds "addc ds cs y" x t]
    show ?thesis by (simp add: Some)
  qed
qed

lemma held_add_pairs_c:
  "x \<in> set xs \<or> (\<exists>r \<in> set xs. get_v ds B r = Some x) \<Longrightarrow> held ds (add_pairs_c ds cs B xs) x"
proof (induction xs arbitrary: cs)
  case Nil
  then show ?case by simp
next
  case (Cons y ys)
  let ?cs' = "case get_v ds B y of None \<Rightarrow> addc ds cs y | Some t \<Rightarrow> addc ds (addc ds cs y) t"
  show ?case
  proof (cases "x = y \<or> get_v ds B y = Some x")
    case True
    then have "held ds ?cs' x"
      using held_addc[of ds cs x y] held_addc[of ds "addc ds cs y" x]
      by (auto split: option.splits)
    then show ?thesis using held_add_pairs_c_mono by simp
  next
    case False
    with Cons.prems have "x \<in> set ys \<or> (\<exists>r \<in> set ys. get_v ds B r = Some x)" by auto
    from Cons.IH[OF this] show ?thesis by simp
  qed
qed

lemma contains_v_iff:
  "contains_v ds A r \<longleftrightarrow> cmd_key (ds ! r) \<in> (\<lambda>r. cmd_key (ds ! r)) ` set (commands A)"
  unfolding contains_v_def list_ex_iff cmd_eq_def image_iff by (metis (no_types))

subsection \<open>The set that the merge creates\<close>

lemma H_L_cases:
  "(priority B \<le> priority A \<and> H_of A B = A \<and> L_of A B = B) \<or>
   (priority A < priority B \<and> H_of A B = B \<and> L_of A B = A)"
  by (auto simp: H_of_def L_of_def)

lemma intersect_value_agree:
  assumes "set (commands X) \<union> set (commands Y) \<subseteq> S"
  shows "stamped ds (cmdsetobj X) S (snd (intersect_value ds X Y dup)) \<and>
         fst (intersect_value ds X Y dup) = (fresh_copy X)
           \<lparr>commands :=
              (if dup \<and> priority X = priority Y
               then add_pairs_c ds [] Y (filter (contains_v ds Y) (commands X))
               else filter (contains_v ds Y) (commands X))\<rparr>"
proof (cases "dup \<and> priority X = priority Y")
  case False
  then show ?thesis by (auto simp: intersect_value_def stamped_refl)
next
  case True
  have 1: "stamped ds (cmdsetobj X) S (snd (fresh_copy X, ds))" by (simp add: stamped_refl)
  have 2: "cmdsetobj (fst (fresh_copy X, ds)) = cmdsetobj X" by (simp add: fresh_copy_def)
  have 3: "set (filter (contains_v ds Y) (commands X)) \<subseteq> S" using assms by auto
  have 4: "set (commands Y) \<subseteq> S" using assms by auto
  from add_pairs_agree[OF 1 2 3 4] True show ?thesis
    by (simp add: intersect_value_def fresh_copy_def CmdSet_init_def)
qed

lemma policy_value_agree:
  "stamped ds (cmdsetobj (fst (policy_value ds A B))) (set (commands A) \<union> set (commands B))
     (snd (policy_value ds A B))"
proof -
  have ab: "set (commands A) \<union> set (commands B) \<subseteq> set (commands A) \<union> set (commands B)"
    and ba: "set (commands B) \<union> set (commands A) \<subseteq> set (commands A) \<union> set (commands B)"
    by auto
  from intersect_value_agree[OF ab, of ds] intersect_value_agree[OF ba, of ds]
  show ?thesis by (simp add: policy_value_def Let_def stamped_refl fresh_copy_def)
qed

lemma merge_value_agree:
  "stamped ds (cmdsetobj (fst (policy_value ds A B))) (set (commands A) \<union> set (commands B))
     (snd (merge_value ds A B)) \<and>
   fst (merge_value ds A B) = (fst (policy_value ds A B))
     \<lparr>actual_mergetype := effective_mergetype A B,
      commands := add_list_c ds (commands (fst (policy_value ds A B)))
                    (system_cmds ds A @ system_cmds ds B)\<rparr>"
proof -
  let ?p = "((fst (policy_value ds A B))\<lparr>actual_mergetype := effective_mergetype A B\<rparr>,
             snd (policy_value ds A B))"
  have 1: "stamped ds (cmdsetobj (fst (policy_value ds A B))) (set (commands A) \<union> set (commands B)) (snd ?p)"
    using policy_value_agree[of ds A B] by simp
  have 2: "cmdsetobj (fst ?p) = cmdsetobj (fst (policy_value ds A B))" by simp
  have 3: "set (system_cmds ds A @ system_cmds ds B) \<subseteq> set (commands A) \<union> set (commands B)"
    by (auto simp: system_cmds_def)
  from add_list_agree[OF 1 2 3] show ?thesis by (simp add: merge_value_def)
qed

lemma policy_commands_union:
  "effective_mergetype A B = ''Union'' \<Longrightarrow>
   commands (fst (policy_value ds A B)) =
     commands (H_of A B) @
     (if keeps_duplicates A B then commands (L_of A B)
      else filter (\<lambda>r. \<not> contains_v ds (H_of A B) r) (commands (L_of A B)))"
  using H_L_cases[of B A]
  by (auto simp: policy_value_def union_value_def keeps_duplicates_def Let_def)

lemma policy_commands_intersect:
  "effective_mergetype A B = ''Intersect'' \<Longrightarrow>
   commands (fst (policy_value ds A B)) =
     (if keeps_duplicates A B
      then add_pairs_c ds [] (L_of A B) (filter (contains_v ds (L_of A B)) (commands (H_of A B)))
      else filter (contains_v ds (L_of A B)) (commands (H_of A B)))"
proof -
  have s: "set (commands X) \<union> set (commands Y) \<subseteq> UNIV" for X Y :: cmdset by simp
  assume "effective_mergetype A B = ''Intersect''"
  then show ?thesis
    using H_L_cases[of B A] intersect_value_agree[OF s, of ds A B] intersect_value_agree[OF s, of ds B A]
    by (auto simp: policy_value_def keeps_duplicates_def Let_def)
qed

lemma policy_commands_replace:
  "effective_mergetype A B = ''Replace'' \<Longrightarrow>
   commands (fst (policy_value ds A B)) = commands (H_of A B)"
  using H_L_cases[of B A] by (auto simp: policy_value_def replace_value_def Let_def)

lemma policy_commands_remove:
  "effective_mergetype A B = ''Remove'' \<Longrightarrow>
   commands (fst (policy_value ds A B)) = filter (\<lambda>r. \<not> contains_v ds A r) (commands B)"
  by (auto simp: policy_value_def remove_value_def Let_def)

lemma merged_commands:
  assumes "a < length (cmdsets h)" and "b < length (cmdsets h)"
  shows "commands (merged h a b) =
           add_list_c (descriptors h)
             (commands (fst (policy_value (descriptors h) (cmdsets h ! a) (cmdsets h ! b))))
             (system_cmds (descriptors h) (cmdsets h ! a) @ system_cmds (descriptors h) (cmdsets h ! b))"
  using assms merge_value_agree[of "descriptors h" "cmdsets h ! a" "cmdsets h ! b"]
  by (simp add: merged_eq)

lemma merged_cmdsetobj:
  assumes "a < length (cmdsets h)" and "b < length (cmdsets h)"
  shows "cmdsetobj (merged h a b) =
           cmdsetobj (fst (policy_value (descriptors h) (cmdsets h ! a) (cmdsets h ! b)))"
  using assms merge_value_agree[of "descriptors h" "cmdsets h ! a" "cmdsets h ! b"]
  by (simp add: merged_eq)

lemma after_stamped:
  assumes "a < length (cmdsets h)" and "b < length (cmdsets h)"
  shows "stamped (descriptors h) (cmdsetobj (merged h a b))
           (set (commands (cmdsets h ! a)) \<union> set (commands (cmdsets h ! b)))
           (descriptors (after h a b))"
  using assms merge_value_agree[of "descriptors h" "cmdsets h ! a" "cmdsets h ! b"]
  by (simp add: merged_cmdsetobj after_eq heap_with_simps)

lemma after_agree:
  assumes "a < length (cmdsets h)" and "b < length (cmdsets h)"
  shows "agree (descriptors h) (descriptors (after h a b))"
  using after_stamped[OF assms] by (rule stamped_agree)

lemma key_at_after:
  "a < length (cmdsets h) \<Longrightarrow> b < length (cmdsets h) \<Longrightarrow> key_at (after h a b) = key_at h"
  using after_agree[of a h b] by (simp add: fun_eq_iff key_at_def agree_def)

lemma is_system_after:
  "a < length (cmdsets h) \<Longrightarrow> b < length (cmdsets h) \<Longrightarrow> is_system (after h a b) = is_system h"
  using after_agree[of a h b] by (simp add: fun_eq_iff is_system_def is_system_cmd_def agree_def)

lemma keys_of_after:
  "a < length (cmdsets h) \<Longrightarrow> b < length (cmdsets h) \<Longrightarrow> keys_of (after h a b) s = keys_of h s"
  by (simp add: keys_of_def key_at_after)

lemma sys_keys_after:
  "a < length (cmdsets h) \<Longrightarrow> b < length (cmdsets h) \<Longrightarrow> sys_keys (after h a b) s = sys_keys h s"
  by (simp add: sys_keys_def key_at_after is_system_after)

lemma plain_cmds_after:
  "a < length (cmdsets h) \<Longrightarrow> b < length (cmdsets h) \<Longrightarrow> plain_cmds (after h a b) s = plain_cmds h s"
  by (simp add: plain_cmds_def is_system_after)

lemma holds_after:
  "a < length (cmdsets h) \<Longrightarrow> b < length (cmdsets h) \<Longrightarrow> holds (after h a b) s r = holds h s r"
  using after_agree[of a h b] by (simp add: holds_def held_def same_entry_agree)

subsection \<open>The merge in terms of keys\<close>

lemma contains_v_keys:
  "contains_v (descriptors h) X r \<longleftrightarrow> key_at h r \<in> keys_of h X"
  by (simp add: contains_v_iff keys_of_def key_at_def)

lemma contains_v_keys_fun:
  "contains_v (descriptors h) X = (\<lambda>r. key_at h r \<in> keys_of h X)"
  by (simp add: fun_eq_iff contains_v_keys)

lemma is_system_key: "key_at h r = key_at h y \<Longrightarrow> is_system h r = is_system h y"
  by (simp add: is_system_def is_system_cmd_def key_at_def)

lemma set_system_cmds:
  "set (system_cmds (descriptors h) X) = {r \<in> set (commands X). is_system h r}"
  by (auto simp: system_cmds_def is_system_def)

lemma sys_keys_subset: "sys_keys h X \<subseteq> keys_of h X"
  by (auto simp: sys_keys_def keys_of_def)

lemma policy_cmds_union:
  "effective_mergetype (cmdsets h ! a) (cmdsets h ! b) = ''Union'' \<Longrightarrow>
   policy_cmds h a b =
     commands (H_of (cmdsets h ! a) (cmdsets h ! b)) @
     (if keeps_duplicates (cmdsets h ! a) (cmdsets h ! b)
      then commands (L_of (cmdsets h ! a) (cmdsets h ! b))
      else filter (\<lambda>r. key_at h r \<notin> keys_of h (H_of (cmdsets h ! a) (cmdsets h ! b)))
             (commands (L_of (cmdsets h ! a) (cmdsets h ! b))))"
  by (simp add: policy_cmds_def policy_commands_union contains_v_keys)

lemma policy_cmds_intersect:
  "effective_mergetype (cmdsets h ! a) (cmdsets h ! b) = ''Intersect'' \<Longrightarrow>
   policy_cmds h a b =
     (if keeps_duplicates (cmdsets h ! a) (cmdsets h ! b)
      then add_pairs_c (descriptors h) [] (L_of (cmdsets h ! a) (cmdsets h ! b))
             (filter (\<lambda>r. key_at h r \<in> keys_of h (L_of (cmdsets h ! a) (cmdsets h ! b)))
                (commands (H_of (cmdsets h ! a) (cmdsets h ! b))))
      else filter (\<lambda>r. key_at h r \<in> keys_of h (L_of (cmdsets h ! a) (cmdsets h ! b)))
             (commands (H_of (cmdsets h ! a) (cmdsets h ! b))))"
  by (simp add: policy_cmds_def policy_commands_intersect contains_v_keys_fun)

lemma policy_cmds_replace:
  "effective_mergetype (cmdsets h ! a) (cmdsets h ! b) = ''Replace'' \<Longrightarrow>
   policy_cmds h a b = commands (H_of (cmdsets h ! a) (cmdsets h ! b))"
  by (simp add: policy_cmds_def policy_commands_replace)

lemma policy_cmds_remove:
  "effective_mergetype (cmdsets h ! a) (cmdsets h ! b) = ''Remove'' \<Longrightarrow>
   policy_cmds h a b =
     filter (\<lambda>r. key_at h r \<notin> keys_of h (cmdsets h ! a)) (commands (cmdsets h ! b))"
  by (simp add: policy_cmds_def policy_commands_remove contains_v_keys)

lemma policy_cmds_subset:
  "set (policy_cmds h a b) \<subseteq> set (commands (cmdsets h ! a)) \<union> set (commands (cmdsets h ! b))"
proof -
  have s: "set (commands X) \<union> set (commands Y) \<subseteq> UNIV" for X Y :: cmdset by simp
  have i: "set (commands (fst (intersect_value ds X Y dup))) \<subseteq> set (commands X) \<union> set (commands Y)"
    for ds X Y dup
    using intersect_value_agree[OF s, of ds X Y dup]
      set_add_pairs_c[of ds "[]" Y "filter (contains_v ds Y) (commands X)"]
    by auto
  show ?thesis
    using i[of "descriptors h" "cmdsets h ! a" "cmdsets h ! b"]
      i[of "descriptors h" "cmdsets h ! b" "cmdsets h ! a"]
    by (auto simp: policy_cmds_def policy_value_def Let_def union_value_def replace_value_def
        remove_value_def)
qed

lemma merged_cmds:
  assumes "a < length (cmdsets h)" and "b < length (cmdsets h)"
  shows "commands (merged h a b) =
           add_list_c (descriptors h) (policy_cmds h a b)
             (get_system_cmds h a @ get_system_cmds h b)"
  using merged_commands[OF assms] by (simp add: policy_cmds_def get_system_cmds_eq)

lemma set_get_system_cmds:
  "set (get_system_cmds h s) = {r \<in> set (commands (cmdsets h ! s)). is_system h r}"
  by (auto simp: get_system_cmds_def is_system_def)

lemma merged_keys:
  assumes "a < length (cmdsets h)" and "b < length (cmdsets h)"
  shows "keys_of (after h a b) (merged h a b) =
           key_at h ` set (policy_cmds h a b) \<union> sys_keys h (cmdsets h ! a) \<union> sys_keys h (cmdsets h ! b)"
proof -
  have "keys_of (after h a b) (merged h a b) = keys_of h (merged h a b)"
    using assms by (rule keys_of_after)
  also have "\<dots> = (\<lambda>r. cmd_key (descriptors h ! r)) ` set (commands (merged h a b))"
    by (simp add: keys_of_def key_at_def[abs_def])
  also have "\<dots> = key_at h ` set (policy_cmds h a b) \<union> key_at h ` set (get_system_cmds h a @ get_system_cmds h b)"
    by (simp add: merged_cmds[OF assms] keys_add_list_c key_at_def[abs_def])
  also have "key_at h ` set (get_system_cmds h a @ get_system_cmds h b) =
             sys_keys h (cmdsets h ! a) \<union> sys_keys h (cmdsets h ! b)"
    by (simp add: sys_keys_def set_get_system_cmds image_Un)
  finally show ?thesis by (simp add: Un_assoc)
qed

lemma merged_subset:
  assumes "a < length (cmdsets h)" and "b < length (cmdsets h)"
  shows "set (commands (merged h a b)) \<subseteq> set (commands (cmdsets h ! a)) \<union> set (commands (cmdsets h ! b))"
  using set_add_list_c[of "descriptors h" "policy_cmds h a b" "get_system_cmds h a @ get_system_cmds h b"]
    policy_cmds_subset[of h a b]
  by (auto simp: merged_cmds[OF assms] set_get_system_cmds)

lemma merged_plain:
  assumes "a < length (cmdsets h)" and "b < length (cmdsets h)"
    and "r \<in> set (commands (merged h a b))" and "\<not> is_system h r"
  shows "r \<in> set (policy_cmds h a b)"
  using set_add_list_c[of "descriptors h" "policy_cmds h a b" "get_system_cmds h a @ get_system_cmds h b"]
    assms(3,4)
  by (auto simp: merged_cmds[OF assms(1,2)] set_get_system_cmds)

lemma merged_holds:
  assumes "a < length (cmdsets h)" and "b < length (cmdsets h)"
    and "held (descriptors h) (policy_cmds h a b) r \<or>
         r \<in> set (get_system_cmds h a) \<or> r \<in> set (get_system_cmds h b)"
  shows "holds (after h a b) (merged h a b) r"
proof -
  have "held (descriptors h) (commands (merged h a b)) r"
    unfolding merged_cmds[OF assms(1,2)] using assms(3) by (intro held_add_list_c) auto
  then show ?thesis using assms(1,2) by (simp add: holds_after) (simp add: holds_def)
qed

lemma merged_nosys:
  assumes "a < length (cmdsets h)" and "b < length (cmdsets h)"
    and "get_system_cmds h a = []" and "get_system_cmds h b = []"
  shows "commands (merged h a b) = policy_cmds h a b"
  by (simp add: merged_cmds[OF assms(1,2)] assms(3,4))

lemma merged_plain_length:
  assumes "a < length (cmdsets h)" and "b < length (cmdsets h)"
  shows "length (plain_cmds (after h a b) (merged h a b)) \<le> length (policy_cmds h a b)"
proof -
  have "length (filter (\<lambda>r. \<not> is_system h r) (commands (merged h a b))) \<le>
        length (filter (\<lambda>r. \<not> is_system h r) (policy_cmds h a b))"
    unfolding merged_cmds[OF assms]
    by (rule length_filter_add_list_c) (auto simp: set_get_system_cmds)
  also have "\<dots> \<le> length (policy_cmds h a b)" by simp
  finally show ?thesis using assms by (simp add: plain_cmds_after) (simp add: plain_cmds_def)
qed

lemma tie_iff: "priority (H_of A B) = priority (L_of A B) \<longleftrightarrow> priority A = priority B"
  by (auto simp: H_of_def L_of_def)

lemma length_filter_keys_le:
  assumes "distinct (map (key_at h) cs)"
  shows "length (filter (\<lambda>r. key_at h r \<in> keys_of h L) cs) \<le> length (commands L)"
proof -
  let ?r = "filter (\<lambda>r. key_at h r \<in> keys_of h L) cs"
  have d: "distinct (map (key_at h) ?r)" using assms by (simp add: distinct_map_filter)
  have "card (set (map (key_at h) ?r)) = length (map (key_at h) ?r)" using d by (rule distinct_card)
  then have "length ?r = card (set (map (key_at h) ?r))" by (simp only: length_map)
  also have "\<dots> \<le> card (keys_of h L)"
    by (rule card_mono) (auto simp: keys_of_def)
  also have "\<dots> \<le> length (commands L)"
    unfolding keys_of_def by (metis card_image_le card_length le_trans List.finite_set)
  finally show ?thesis .
qed

lemmas ex_simps = a_cmd_def a_bare_cmd_def a_set_def a_heap_def CmdSet_init_def
  effective_mergetype_def dict_get_def keys_of_def key_at_def sys_keys_def is_system_def
  is_system_cmd_def H_of_def L_of_def keeps_duplicates_def holds_def held_def plain_cmds_def
  cmds_of_def get_system_cmds_def

lemmas val_simps = merge_value_def policy_value_def union_value_def intersect_value_def
  replace_value_def remove_value_def fresh_copy_def contains_v_def cmd_eq_def add_v_def
  stamp_def system_cmds_def get_v_def same_entry_def heap_with_def Let_def

subsection \<open>Remove\<close>

text \<open>Whatever the priorities, the merge under Remove filters the right operand by the
  left one.\<close>

lemma remove_merge_keys:
  assumes "a < length (cmdsets h)" and "b < length (cmdsets h)"
    and "effective_mergetype (cmdsets h ! a) (cmdsets h ! b) = ''Remove''"
  shows "keys_of (after h a b) (merged h a b) =
           (keys_of h (cmdsets h ! b) - keys_of h (cmdsets h ! a)) \<union>
           sys_keys h (cmdsets h ! a) \<union> sys_keys h (cmdsets h ! b)"
proof -
  have "key_at h ` set (policy_cmds h a b) = keys_of h (cmdsets h ! b) - keys_of h (cmdsets h ! a)"
    by (auto simp: policy_cmds_remove[OF assms(3)] keys_of_def)
  then show ?thesis by (simp add: merged_keys[OF assms(1,2)])
qed

text \<open>
  Claim C1 says that a merge under Remove gives the commands of the lower set L whose keys
  are not in the higher set H, whichever operand is the higher one. The code does so when
  the left operand is the higher one or on a tie. When the right operand is the higher
  one, \<open>__add__\<close> calls \<open>remove(self, cmdset_b, ...)\<close> with the operands not swapped: the
  result holds the commands of H whose keys are not in L. Here the lower set has
  \<open>look\<close> and the higher set, of merge type Remove, has \<open>look\<close> and \<open>get\<close>: the keys
  of L without those of H are none, yet the merge returns the \<open>get\<close> of H. With the same
  two sets in the other order the result is empty, as the claim says.
\<close>

theorem remove_right_operand_higher:
  "cmds_of
     (after (a_heap [a_set ''Low'' 0 ''Union'' False [0], a_set ''High'' 1 ''Remove'' False [1, 2]]
               [a_cmd ''look'' 1 10, a_cmd ''look'' 1 11, a_cmd ''get'' 2 11]) 0 1)
     (merged (a_heap [a_set ''Low'' 0 ''Union'' False [0], a_set ''High'' 1 ''Remove'' False [1, 2]]
               [a_cmd ''look'' 1 10, a_cmd ''look'' 1 11, a_cmd ''get'' 2 11]) 0 1)
     = [a_cmd ''get'' 2 11] \<and>
   cmds_of
     (after (a_heap [a_set ''High'' 1 ''Remove'' False [1, 2], a_set ''Low'' 0 ''Union'' False [0]]
               [a_cmd ''look'' 1 10, a_cmd ''look'' 1 11, a_cmd ''get'' 2 11]) 0 1)
     (merged (a_heap [a_set ''High'' 1 ''Remove'' False [1, 2], a_set ''Low'' 0 ''Union'' False [0]]
               [a_cmd ''look'' 1 10, a_cmd ''look'' 1 11, a_cmd ''get'' 2 11]) 0 1)
     = []"
  by (simp add: merged_eq after_eq ex_simps val_simps)

subsection \<open>Merging with None or with an empty set\<close>

text \<open>
  Claim C2, counterexample. A set of merge type Intersect with the command \<open>look\<close>,
  merged with a set that holds no command, gives a set with no command: an empty set is
  an object, \<open>not cmdset_b\<close> is false for it, and the merge runs.
\<close>

theorem merge_with_empty_counterexample:
  "commands (merged (a_heap [a_set ''A'' 0 ''Intersect'' False [0], a_set ''Empty'' 0 ''Union'' False []]
                      [a_cmd ''look'' 1 10]) 0 1) = [] \<and>
   commands (a_set ''A'' 0 ''Intersect'' False [0]) = [0]"
  by (simp add: merged_eq ex_simps val_simps)

text \<open>
  Claim C2, as amended. Merging with None returns the receiver itself and leaves the
  heap as it is. Merging with a set that holds no command creates a new set. When the
  merge type applied is Union, or Replace with the receiver the higher operand or tied,
  the new set has the keys of the receiver, each of its commands is a command of the
  receiver, it holds every command of the receiver (the descriptor itself, or one of the
  same hash and key), and its commands are those of the receiver, in their order, if the
  receiver holds no system command. When the merge type applied is Intersect, or Remove
  with the receiver the higher operand or tied, or Replace with the empty set the higher
  operand, only the keys of the receiver's system commands are left. Nothing is said of
  Remove with the empty set as the higher operand, where \<open>__add__\<close> does not swap the
  operands.
\<close>

theorem merge_with_none_or_empty:
  assumes "a < length (cmdsets h)" and "b < length (cmdsets h)"
    and "commands (cmdsets h ! b) = []"
  shows "CmdSet_add h a None = (a, h) \<and>
         fst (CmdSet_add h a (Some b)) = length (cmdsets h) \<and>
         ((effective_mergetype (cmdsets h ! a) (cmdsets h ! b) = ''Union'' \<or>
           (effective_mergetype (cmdsets h ! a) (cmdsets h ! b) = ''Replace'' \<and>
            priority (cmdsets h ! b) \<le> priority (cmdsets h ! a))) \<longrightarrow>
            keys_of (after h a b) (merged h a b) = keys_of h (cmdsets h ! a) \<and>
            set (commands (merged h a b)) \<subseteq> set (commands (cmdsets h ! a)) \<and>
            (\<forall>r \<in> set (commands (cmdsets h ! a)). holds (after h a b) (merged h a b) r) \<and>
            (get_system_cmds h a = [] \<longrightarrow>
               commands (merged h a b) = commands (cmdsets h ! a))) \<and>
         ((effective_mergetype (cmdsets h ! a) (cmdsets h ! b) = ''Intersect'' \<or>
           (effective_mergetype (cmdsets h ! a) (cmdsets h ! b) = ''Remove'' \<and>
            priority (cmdsets h ! b) \<le> priority (cmdsets h ! a)) \<or>
           (effective_mergetype (cmdsets h ! a) (cmdsets h ! b) = ''Replace'' \<and>
            priority (cmdsets h ! a) < priority (cmdsets h ! b))) \<longrightarrow>
            keys_of (after h a b) (merged h a b) = sys_keys h (cmdsets h ! a))"
proof -
  let ?A = "cmdsets h ! a" and ?B = "cmdsets h ! b"
  let ?mt = "effective_mergetype ?A ?B"
  have kb: "keys_of h ?B = {}" and sb: "sys_keys h ?B = {}" and gb: "get_system_cmds h b = []"
    using assms(3) by (simp_all add: keys_of_def sys_keys_def get_system_cmds_def)
  have m: "keys_of (after h a b) (merged h a b) = key_at h ` set (policy_cmds h a b) \<union> sys_keys h ?A"
    by (simp add: merged_keys[OF assms(1,2)] sb)
  have 1: "CmdSet_add h a None = (a, h)" by (simp add: CmdSet_add_def)
  have 2: "fst (CmdSet_add h a (Some b)) = length (cmdsets h)"
    using assms(1,2) by (simp add: CmdSet_add_eq)
  have 3: "keys_of (after h a b) (merged h a b) = keys_of h ?A \<and>
           set (commands (merged h a b)) \<subseteq> set (commands ?A) \<and>
           (\<forall>r \<in> set (commands ?A). holds (after h a b) (merged h a b) r) \<and>
           (get_system_cmds h a = [] \<longrightarrow> commands (merged h a b) = commands ?A)"
    if "?mt = ''Union'' \<or> (?mt = ''Replace'' \<and> priority ?B \<le> priority ?A)"
  proof -
    have pc: "policy_cmds h a b = commands ?A"
      using that assms(3) kb H_L_cases[of ?B ?A]
      by (auto simp: policy_cmds_union policy_cmds_replace)
    have "key_at h ` set (commands ?A) = keys_of h ?A" by (simp add: keys_of_def)
    then have "keys_of (after h a b) (merged h a b) = keys_of h ?A"
      using sys_keys_subset[of h ?A] by (auto simp: m pc)
    moreover have "set (commands (merged h a b)) \<subseteq> set (commands ?A)"
      using merged_subset[OF assms(1,2)] assms(3) by simp
    moreover have "\<forall>r \<in> set (commands ?A). holds (after h a b) (merged h a b) r"
      using assms(1,2) by (auto intro!: merged_holds held_self simp: pc)
    moreover have "commands (merged h a b) = commands ?A" if "get_system_cmds h a = []"
      using merged_nosys[OF assms(1,2) that gb] by (simp add: pc)
    ultimately show ?thesis by blast
  qed
  have 4: "keys_of (after h a b) (merged h a b) = sys_keys h ?A"
    if "?mt = ''Intersect'' \<or> (?mt = ''Remove'' \<and> priority ?B \<le> priority ?A) \<or>
        (?mt = ''Replace'' \<and> priority ?A < priority ?B)"
  proof -
    have "policy_cmds h a b = []"
      using that assms(3) kb H_L_cases[of ?B ?A]
      by (auto simp: policy_cmds_intersect policy_cmds_replace policy_cmds_remove)
    then show ?thesis by (simp add: m)
  qed
  from 1 2 3 4 show ?thesis by blast
qed

theorem merge_with_none_or_empty_witness:
  "CmdSet_add (a_heap [a_set ''A'' 0 ''Union'' False [0], a_set ''Empty'' 0 ''Union'' False []]
                 [a_cmd ''look'' 1 10]) 0 None =
     (0, a_heap [a_set ''A'' 0 ''Union'' False [0], a_set ''Empty'' 0 ''Union'' False []]
           [a_cmd ''look'' 1 10]) \<and>
   commands (merged (a_heap [a_set ''A'' 0 ''Union'' False [0], a_set ''Empty'' 0 ''Union'' False []]
                       [a_cmd ''look'' 1 10]) 0 1) = [0] \<and>
   keys_of (after (a_heap [a_set ''A'' 0 ''Remove'' False [0, 1], a_set ''Empty'' 0 ''Union'' False []]
                     [a_cmd ''look'' 1 10, a_cmd ''__sys'' 2 10]) 0 1)
           (merged (a_heap [a_set ''A'' 0 ''Remove'' False [0, 1], a_set ''Empty'' 0 ''Union'' False []]
                     [a_cmd ''look'' 1 10, a_cmd ''__sys'' 2 10]) 0 1) = {''__sys''}"
  using merge_with_none_or_empty [of 0
      "a_heap [a_set ''A'' 0 ''Union'' False [0], a_set ''Empty'' 0 ''Union'' False []]
         [a_cmd ''look'' 1 10]" 1]
    merge_with_none_or_empty [of 0
      "a_heap [a_set ''A'' 0 ''Remove'' False [0, 1], a_set ''Empty'' 0 ''Union'' False []]
         [a_cmd ''look'' 1 10, a_cmd ''__sys'' 2 10]" 1]
  by (simp add: ex_simps)

subsection \<open>System commands\<close>

text \<open>
  Claim C3. Under every merge type, every system command of either operand has its key in
  the result of the merge, and the result holds it (the descriptor itself, or one of the
  same hash and key); and the keys of the result that are keys of system commands are
  exactly those of the system commands of the two operands, so no policy filters them.
\<close>

theorem system_commands_survive:
  assumes "a < length (cmdsets h)" and "b < length (cmdsets h)"
  shows "(\<forall>r \<in> set (commands (cmdsets h ! a)) \<union> set (commands (cmdsets h ! b)).
            is_system h r \<longrightarrow>
              key_at (after h a b) r \<in> keys_of (after h a b) (merged h a b) \<and>
              holds (after h a b) (merged h a b) r) \<and>
         sys_keys (after h a b) (merged h a b) =
           sys_keys h (cmdsets h ! a) \<union> sys_keys h (cmdsets h ! b)"
proof -
  let ?A = "cmdsets h ! a" and ?B = "cmdsets h ! b"
  let ?M = "merged h a b"
  have k: "keys_of h ?M = key_at h ` set (policy_cmds h a b) \<union> sys_keys h ?A \<union> sys_keys h ?B"
    using merged_keys[OF assms] by (simp add: keys_of_after[OF assms])
  have 1: "key_at (after h a b) r \<in> keys_of (after h a b) ?M \<and> holds (after h a b) ?M r"
    if "r \<in> set (commands ?A) \<union> set (commands ?B)" and "is_system h r" for r
  proof -
    from that have s: "r \<in> set (get_system_cmds h a) \<or> r \<in> set (get_system_cmds h b)"
      by (auto simp: set_get_system_cmds)
    then have "holds (after h a b) ?M r" using assms by (intro merged_holds) auto
    moreover from that have "key_at h r \<in> sys_keys h ?A \<union> sys_keys h ?B"
      by (auto simp: sys_keys_def)
    then have "key_at (after h a b) r \<in> keys_of (after h a b) ?M"
      using k by (simp add: key_at_after[OF assms] keys_of_after[OF assms])
    ultimately show ?thesis by blast
  qed
  have 2: "sys_keys h ?M = sys_keys h ?A \<union> sys_keys h ?B"
  proof
    show "sys_keys h ?M \<subseteq> sys_keys h ?A \<union> sys_keys h ?B"
      using merged_subset[OF assms] by (auto simp: sys_keys_def)
  next
    show "sys_keys h ?A \<union> sys_keys h ?B \<subseteq> sys_keys h ?M"
    proof
      fix x assume x: "x \<in> sys_keys h ?A \<union> sys_keys h ?B"
      then obtain r where r: "key_at h r = x" "is_system h r" by (auto simp: sys_keys_def)
      from x k have "x \<in> keys_of h ?M" by auto
      then obtain y where y: "y \<in> set (commands ?M)" "key_at h y = x" by (auto simp: keys_of_def)
      from r y(2) have "is_system h y" using is_system_key[of h y r] by simp
      with y show "x \<in> sys_keys h ?M" by (auto simp: sys_keys_def)
    qed
  qed
  from 1 2 show ?thesis by (simp add: sys_keys_after[OF assms])
qed

theorem system_commands_survive_witness:
  "''__login'' \<in>
     keys_of (after (a_heap [a_set ''Low'' 0 ''Union'' False [0, 1], a_set ''High'' 1 ''Replace'' False [2]]
                       [a_cmd ''__login'' 1 10, a_cmd ''look'' 2 10, a_cmd ''get'' 3 11]) 0 1)
             (merged (a_heap [a_set ''Low'' 0 ''Union'' False [0, 1], a_set ''High'' 1 ''Replace'' False [2]]
                       [a_cmd ''__login'' 1 10, a_cmd ''look'' 2 10, a_cmd ''get'' 3 11]) 0 1)"
  using system_commands_survive [of 0
      "a_heap [a_set ''Low'' 0 ''Union'' False [0, 1], a_set ''High'' 1 ''Replace'' False [2]]
         [a_cmd ''__login'' 1 10, a_cmd ''look'' 2 10, a_cmd ''get'' 3 11]" 1]
  by (simp add: ex_simps key_at_after)

subsection \<open>Union\<close>

text \<open>
  Claim C4, counterexample. Two sets of equal priority, the right one with the duplicates
  flag; both hold a \<open>look\<close>, with the same hash, and the left one a system command.
  \<open>union\<close> appends the \<open>look\<close> of the right set, but the \<open>add\<close> of the system command
  then runs the commands through \<open>set(...)\<close>, which keeps one \<open>look\<close>: the two do not
  coexist in the result. And where descriptors of one key have different hashes, the
  other half of the claim fails for system commands: of two sets of unequal priorities
  that hold a system command of the same key, the merge keeps the descriptor of the lower
  set beside that of the higher one.
\<close>

theorem union_merge_counterexample:
  "set (commands (merged (a_heap [a_set ''A'' 0 ''Union'' False [0, 1], a_set ''B'' 0 ''Union'' True [2]]
                            [a_cmd ''look'' 1 10, a_cmd ''__sys'' 2 10, a_cmd ''look'' 1 11]) 0 1)) = {0, 1} \<and>
   keeps_duplicates (a_set ''A'' 0 ''Union'' False [0, 1]) (a_set ''B'' 0 ''Union'' True [2]) \<and>
   set (cmds_of
          (after (a_heap [a_set ''High'' 1 ''Union'' False [0], a_set ''Low'' 0 ''Union'' False [1]]
                    [a_cmd ''__motd'' 1 11, a_cmd ''__motd'' 2 10]) 0 1)
          (merged (a_heap [a_set ''High'' 1 ''Union'' False [0], a_set ''Low'' 0 ''Union'' False [1]]
                    [a_cmd ''__motd'' 1 11, a_cmd ''__motd'' 2 10]) 0 1)) =
     {a_cmd ''__motd'' 1 11, a_cmd ''__motd'' 2 10}"
  by (simp add: merged_eq after_eq ex_simps val_simps)

text \<open>
  Claim C4, as amended. Under Union the keys of the result are the keys of H and those of
  L, whichever operand is the left one, and every command of the result is a command of
  H or of L. The result holds every command of H (the descriptor itself, or one of the
  same hash and key). On equal priorities with the duplicates flag of L set, it holds
  every command of L as well; otherwise it holds the commands of L whose key is not a key
  of H, and a command of the result that is not a system command and whose key is a key
  of H is a command of H: the descriptor of H wins. When neither operand holds a system
  command, the result is the commands of H followed by all commands of L (equal
  priorities, duplicates flag of L) or by those commands of L whose key is not a key of H.
\<close>

theorem union_merge:
  assumes "a < length (cmdsets h)" and "b < length (cmdsets h)"
    and "effective_mergetype (cmdsets h ! a) (cmdsets h ! b) = ''Union''"
  shows "keys_of (after h a b) (merged h a b) =
           keys_of h (H_of (cmdsets h ! a) (cmdsets h ! b)) \<union>
           keys_of h (L_of (cmdsets h ! a) (cmdsets h ! b)) \<and>
         set (commands (merged h a b)) \<subseteq>
           set (commands (H_of (cmdsets h ! a) (cmdsets h ! b))) \<union>
           set (commands (L_of (cmdsets h ! a) (cmdsets h ! b))) \<and>
         (\<forall>r \<in> set (commands (H_of (cmdsets h ! a) (cmdsets h ! b))).
            holds (after h a b) (merged h a b) r) \<and>
         (\<forall>r \<in> set (commands (L_of (cmdsets h ! a) (cmdsets h ! b))).
            keeps_duplicates (cmdsets h ! a) (cmdsets h ! b) \<or>
            key_at h r \<notin> keys_of h (H_of (cmdsets h ! a) (cmdsets h ! b)) \<longrightarrow>
              holds (after h a b) (merged h a b) r) \<and>
         (\<forall>r \<in> set (commands (merged h a b)).
            \<not> keeps_duplicates (cmdsets h ! a) (cmdsets h ! b) \<and> \<not> is_system h r \<and>
            key_at h r \<in> keys_of h (H_of (cmdsets h ! a) (cmdsets h ! b)) \<longrightarrow>
              r \<in> set (commands (H_of (cmdsets h ! a) (cmdsets h ! b)))) \<and>
         (get_system_cmds h a = [] \<and> get_system_cmds h b = [] \<longrightarrow>
            commands (merged h a b) =
              commands (H_of (cmdsets h ! a) (cmdsets h ! b)) @
              (if keeps_duplicates (cmdsets h ! a) (cmdsets h ! b)
               then commands (L_of (cmdsets h ! a) (cmdsets h ! b))
               else filter (\<lambda>r. key_at h r \<notin> keys_of h (H_of (cmdsets h ! a) (cmdsets h ! b)))
                      (commands (L_of (cmdsets h ! a) (cmdsets h ! b)))))"
proof -
  let ?A = "cmdsets h ! a" and ?B = "cmdsets h ! b"
  let ?H = "H_of ?A ?B" and ?L = "L_of ?A ?B"
  let ?M = "merged h a b" and ?h' = "after h a b"
  let ?kd = "keeps_duplicates ?A ?B"
  let ?P = "commands ?H @ (if ?kd then commands ?L
              else filter (\<lambda>r. key_at h r \<notin> keys_of h ?H) (commands ?L))"
  have p: "policy_cmds h a b = ?P" using assms(3) by (rule policy_cmds_union)
  have hl: "set (commands ?A) \<union> set (commands ?B) = set (commands ?H) \<union> set (commands ?L)"
    and hs: "sys_keys h ?A \<union> sys_keys h ?B = sys_keys h ?H \<union> sys_keys h ?L"
    using H_L_cases[of ?B ?A] by auto
  have kp: "key_at h ` set ?P = keys_of h ?H \<union> keys_of h ?L"
    by (auto simp: keys_of_def)
  have 1: "keys_of ?h' ?M = keys_of h ?H \<union> keys_of h ?L"
    using sys_keys_subset[of h ?H] sys_keys_subset[of h ?L]
    unfolding merged_keys[OF assms(1,2)] p kp Un_assoc hs by blast
  have 2: "set (commands ?M) \<subseteq> set (commands ?H) \<union> set (commands ?L)"
    using merged_subset[OF assms(1,2)] unfolding hl .
  have 3: "holds ?h' ?M r" if "r \<in> set (commands ?H)" for r
    using assms(1,2) that by (intro merged_holds) (auto simp: p intro!: held_self)
  have 4: "holds ?h' ?M r"
    if "r \<in> set (commands ?L)" and "?kd \<or> key_at h r \<notin> keys_of h ?H" for r
    using assms(1,2) that by (intro merged_holds) (auto simp: p intro!: held_self)
  have 5: "r \<in> set (commands ?H)"
    if "r \<in> set (commands ?M)" and "\<not> ?kd" and "\<not> is_system h r"
      and "key_at h r \<in> keys_of h ?H" for r
  proof -
    from merged_plain[OF assms(1,2) that(1,3)] have "r \<in> set ?P" by (simp only: p)
    with that(2,4) show ?thesis by auto
  qed
  have 6: "commands ?M = ?P" if "get_system_cmds h a = []" and "get_system_cmds h b = []"
    using merged_nosys[OF assms(1,2) that] by (simp only: p)
  from 1 2 3 4 5 6 show ?thesis by blast
qed

theorem union_merge_witness:
  "keys_of (after (a_heap [a_set ''Low'' 0 ''Union'' False [0, 1], a_set ''High'' 1 ''Union'' False [2, 3]]
                     [a_cmd ''look'' 1 10, a_cmd ''drop'' 2 10, a_cmd ''look'' 3 11, a_cmd ''get'' 4 11]) 0 1)
           (merged (a_heap [a_set ''Low'' 0 ''Union'' False [0, 1], a_set ''High'' 1 ''Union'' False [2, 3]]
                     [a_cmd ''look'' 1 10, a_cmd ''drop'' 2 10, a_cmd ''look'' 3 11, a_cmd ''get'' 4 11]) 0 1) =
     {''look'', ''get'', ''drop''} \<and>
   commands (merged (a_heap [a_set ''Low'' 0 ''Union'' False [0, 1], a_set ''High'' 1 ''Union'' False [2, 3]]
                       [a_cmd ''look'' 1 10, a_cmd ''drop'' 2 10, a_cmd ''look'' 3 11, a_cmd ''get'' 4 11]) 0 1) =
     [2, 3, 1] \<and>
   commands (merged (a_heap [a_set ''A'' 0 ''Union'' False [0], a_set ''B'' 0 ''Union'' True [1]]
                       [a_cmd ''look'' 1 10, a_cmd ''look'' 2 11]) 0 1) = [0, 1]"
proof -
  let ?h = "a_heap [a_set ''Low'' 0 ''Union'' False [0, 1], a_set ''High'' 1 ''Union'' False [2, 3]]
              [a_cmd ''look'' 1 10, a_cmd ''drop'' 2 10, a_cmd ''look'' 3 11, a_cmd ''get'' 4 11]"
  let ?g = "a_heap [a_set ''A'' 0 ''Union'' False [0], a_set ''B'' 0 ''Union'' True [1]]
              [a_cmd ''look'' 1 10, a_cmd ''look'' 2 11]"
  have lh: "0 < length (cmdsets ?h)" "1 < length (cmdsets ?h)"
    and lg: "0 < length (cmdsets ?g)" "1 < length (cmdsets ?g)"
    by (simp_all add: a_heap_def)
  have mh: "effective_mergetype (cmdsets ?h ! 0) (cmdsets ?h ! 1) = ''Union''"
    and mg: "effective_mergetype (cmdsets ?g ! 0) (cmdsets ?g ! 1) = ''Union''"
    by (simp_all add: ex_simps)
  have nh: "get_system_cmds ?h 0 = [] \<and> get_system_cmds ?h 1 = []"
    and ng: "get_system_cmds ?g 0 = [] \<and> get_system_cmds ?g 1 = []"
    by (simp_all add: ex_simps)
  note th = union_merge[OF lh mh] and tg = union_merge[OF lg mg]
  from th have "keys_of (after ?h 0 1) (merged ?h 0 1) =
      keys_of ?h (H_of (cmdsets ?h ! 0) (cmdsets ?h ! 1)) \<union>
      keys_of ?h (L_of (cmdsets ?h ! 0) (cmdsets ?h ! 1))" by (rule conjunct1)
  also have "\<dots> = {''look'', ''get'', ''drop''}" by (simp add: ex_simps insert_commute)
  finally have 1: "keys_of (after ?h 0 1) (merged ?h 0 1) = {''look'', ''get'', ''drop''}" .
  from th nh have "commands (merged ?h 0 1) =
      commands (H_of (cmdsets ?h ! 0) (cmdsets ?h ! 1)) @
      (if keeps_duplicates (cmdsets ?h ! 0) (cmdsets ?h ! 1)
       then commands (L_of (cmdsets ?h ! 0) (cmdsets ?h ! 1))
       else filter (\<lambda>r. key_at ?h r \<notin> keys_of ?h (H_of (cmdsets ?h ! 0) (cmdsets ?h ! 1)))
              (commands (L_of (cmdsets ?h ! 0) (cmdsets ?h ! 1))))" by blast
  also have "\<dots> = [2, 3, 1]" by (simp add: ex_simps)
  finally have 2: "commands (merged ?h 0 1) = [2, 3, 1]" .
  from tg ng have "commands (merged ?g 0 1) =
      commands (H_of (cmdsets ?g ! 0) (cmdsets ?g ! 1)) @
      (if keeps_duplicates (cmdsets ?g ! 0) (cmdsets ?g ! 1)
       then commands (L_of (cmdsets ?g ! 0) (cmdsets ?g ! 1))
       else filter (\<lambda>r. key_at ?g r \<notin> keys_of ?g (H_of (cmdsets ?g ! 0) (cmdsets ?g ! 1)))
              (commands (L_of (cmdsets ?g ! 0) (cmdsets ?g ! 1))))" by blast
  also have "\<dots> = [0, 1]" by (simp add: ex_simps)
  finally have 3: "commands (merged ?g 0 1) = [0, 1]" .
  from 1 2 3 show ?thesis by (intro conjI)
qed

subsection \<open>Intersect\<close>

text \<open>
  Claim C5, counterexample. First, the left set, of merge type Intersect, holds one system
  command and the right set one other command: no key is shared, yet the result has the
  key of the system command. Second, two sets of equal priority, the right one with the
  duplicates flag, each with one \<open>look\<close>: the result has both, two commands where the
  smaller operand has one, so the bound on the size and the exception of the claim
  contradict each other. Third, the higher set holds two commands of the key \<open>look\<close>
  and the lower set one: the result has the two of the higher set. Fourth, each of two
  sets of two commands holds a \<open>look\<close> and a system command of its own: the result has
  three commands, the system command of the lower set among them. Fifth, the two sets of
  the second example with one hash for both \<open>look\<close>: \<open>set(...)\<close> keeps the one of the
  left set only.
\<close>

theorem intersect_merge_counterexample:
  "keys_of (after (a_heap [a_set ''A'' 0 ''Intersect'' False [0], a_set ''B'' 0 ''Union'' False [1]]
                     [a_cmd ''__sys'' 1 10, a_cmd ''foo'' 2 11]) 0 1)
           (merged (a_heap [a_set ''A'' 0 ''Intersect'' False [0], a_set ''B'' 0 ''Union'' False [1]]
                     [a_cmd ''__sys'' 1 10, a_cmd ''foo'' 2 11]) 0 1) = {''__sys''} \<and>
   keys_of (a_heap [a_set ''A'' 0 ''Intersect'' False [0], a_set ''B'' 0 ''Union'' False [1]]
              [a_cmd ''__sys'' 1 10, a_cmd ''foo'' 2 11]) (a_set ''A'' 0 ''Intersect'' False [0]) \<inter>
   keys_of (a_heap [a_set ''A'' 0 ''Intersect'' False [0], a_set ''B'' 0 ''Union'' False [1]]
              [a_cmd ''__sys'' 1 10, a_cmd ''foo'' 2 11]) (a_set ''B'' 0 ''Union'' False [1]) = {} \<and>
   set (commands (merged (a_heap [a_set ''A'' 0 ''Intersect'' False [0], a_set ''B'' 0 ''Union'' True [1]]
                            [a_cmd ''look'' 1 10, a_cmd ''look'' 2 11]) 0 1)) = {0, 1} \<and>
   length (commands (merged (a_heap [a_set ''A'' 0 ''Intersect'' False [0], a_set ''B'' 0 ''Union'' True [1]]
                               [a_cmd ''look'' 1 10, a_cmd ''look'' 2 11]) 0 1)) = 2 \<and>
   commands (merged (a_heap [a_set ''A'' 1 ''Intersect'' False [0, 1], a_set ''B'' 0 ''Union'' False [2]]
                       [a_cmd ''look'' 1 10, a_cmd ''look'' 2 10, a_cmd ''look'' 3 11]) 0 1) = [0, 1] \<and>
   set (commands (merged (a_heap [a_set ''A'' 1 ''Intersect'' False [0, 1], a_set ''B'' 0 ''Union'' False [2, 3]]
                            [a_cmd ''look'' 1 10, a_cmd ''__s1'' 2 10, a_cmd ''look'' 3 11,
                             a_cmd ''__s2'' 4 11]) 0 1)) = {0, 1, 3} \<and>
   length (commands (merged (a_heap [a_set ''A'' 1 ''Intersect'' False [0, 1], a_set ''B'' 0 ''Union'' False [2, 3]]
                               [a_cmd ''look'' 1 10, a_cmd ''__s1'' 2 10, a_cmd ''look'' 3 11,
                                a_cmd ''__s2'' 4 11]) 0 1)) = 3 \<and>
   commands (merged (a_heap [a_set ''A'' 0 ''Intersect'' False [0], a_set ''B'' 0 ''Union'' True [1]]
                       [a_cmd ''look'' 1 10, a_cmd ''look'' 1 11]) 0 1) = [0]"
  by (simp add: merged_eq after_eq ex_simps val_simps)

text \<open>
  Claim C5, as amended. Under Intersect the keys of the result are the keys that both
  operands have, together with the keys of the system commands of either. A command of
  the result that is not a system command has a key of both operands, and is a command
  of H, or, on equal priorities with the duplicates flag of L set, a command of H or of
  L. The result holds every command of H whose key is a key of L (the descriptor itself,
  or one of the same hash and key), and on equal priorities with the duplicates flag of L
  set it also holds, for each of them, a command of L of the same key. In the other case
  (no duplicates kept) the commands of the result that are not system commands are no
  more than the commands of H, and no more than the commands of the smaller operand if
  the keys of H are pairwise distinct; and when neither operand holds a system command
  the result is the commands of H whose key is a key of L, in their order.
\<close>

theorem intersect_merge:
  assumes "a < length (cmdsets h)" and "b < length (cmdsets h)"
    and "effective_mergetype (cmdsets h ! a) (cmdsets h ! b) = ''Intersect''"
  shows "keys_of (after h a b) (merged h a b) =
           (keys_of h (cmdsets h ! a) \<inter> keys_of h (cmdsets h ! b)) \<union>
           sys_keys h (cmdsets h ! a) \<union> sys_keys h (cmdsets h ! b) \<and>
         (\<forall>r \<in> set (commands (merged h a b)). \<not> is_system h r \<longrightarrow>
            key_at h r \<in> keys_of h (cmdsets h ! a) \<inter> keys_of h (cmdsets h ! b) \<and>
            (r \<in> set (commands (H_of (cmdsets h ! a) (cmdsets h ! b))) \<or>
             (keeps_duplicates (cmdsets h ! a) (cmdsets h ! b) \<and>
              r \<in> set (commands (L_of (cmdsets h ! a) (cmdsets h ! b)))))) \<and>
         (\<forall>r \<in> set (commands (H_of (cmdsets h ! a) (cmdsets h ! b))).
            key_at h r \<in> keys_of h (L_of (cmdsets h ! a) (cmdsets h ! b)) \<longrightarrow>
              holds (after h a b) (merged h a b) r \<and>
              (keeps_duplicates (cmdsets h ! a) (cmdsets h ! b) \<longrightarrow>
                 (\<exists>t \<in> set (commands (L_of (cmdsets h ! a) (cmdsets h ! b))).
                    key_at h t = key_at h r \<and> holds (after h a b) (merged h a b) t))) \<and>
         (\<not> keeps_duplicates (cmdsets h ! a) (cmdsets h ! b) \<longrightarrow>
            length (plain_cmds (after h a b) (merged h a b)) \<le>
              length (commands (H_of (cmdsets h ! a) (cmdsets h ! b))) \<and>
            (distinct (map (key_at h) (commands (H_of (cmdsets h ! a) (cmdsets h ! b)))) \<longrightarrow>
               length (plain_cmds (after h a b) (merged h a b)) \<le>
                 min (length (commands (cmdsets h ! a))) (length (commands (cmdsets h ! b)))) \<and>
            (get_system_cmds h a = [] \<and> get_system_cmds h b = [] \<longrightarrow>
               commands (merged h a b) =
                 filter (\<lambda>r. key_at h r \<in> keys_of h (L_of (cmdsets h ! a) (cmdsets h ! b)))
                   (commands (H_of (cmdsets h ! a) (cmdsets h ! b)))))"
proof -
  let ?A = "cmdsets h ! a" and ?B = "cmdsets h ! b"
  let ?H = "H_of ?A ?B" and ?L = "L_of ?A ?B"
  let ?M = "merged h a b" and ?h' = "after h a b"
  let ?kd = "keeps_duplicates ?A ?B"
  let ?F = "filter (\<lambda>r. key_at h r \<in> keys_of h ?L) (commands ?H)"
  let ?P = "if ?kd then add_pairs_c (descriptors h) [] ?L ?F else ?F"
  have p: "policy_cmds h a b = ?P" using assms(3) by (rule policy_cmds_intersect)
  have hl: "keys_of h ?H \<inter> keys_of h ?L = keys_of h ?A \<inter> keys_of h ?B"
    using H_L_cases[of ?B ?A] by auto
  have kf: "key_at h ` set ?F = keys_of h ?A \<inter> keys_of h ?B"
    unfolding hl[symmetric] by (auto simp: keys_of_def)
  have kp: "key_at h ` set ?P = keys_of h ?A \<inter> keys_of h ?B"
    using keys_add_pairs_c[of "descriptors h" "[]" ?L ?F] kf
    by (simp add: key_at_def[abs_def])
  have 1: "keys_of ?h' ?M = (keys_of h ?A \<inter> keys_of h ?B) \<union> sys_keys h ?A \<union> sys_keys h ?B"
    unfolding merged_keys[OF assms(1,2)] p kp ..
  have 2: "key_at h r \<in> keys_of h ?A \<inter> keys_of h ?B \<and>
           (r \<in> set (commands ?H) \<or> (?kd \<and> r \<in> set (commands ?L)))"
    if "r \<in> set (commands ?M)" and "\<not> is_system h r" for r
  proof -
    from merged_plain[OF assms(1,2) that] have r: "r \<in> set ?P" by (simp only: p)
    then have "key_at h r \<in> keys_of h ?A \<inter> keys_of h ?B" using kp by blast
    moreover have "r \<in> set (commands ?H) \<or> (?kd \<and> r \<in> set (commands ?L))"
      using r set_add_pairs_c[of "descriptors h" "[]" ?L ?F] by (auto split: if_splits)
    ultimately show ?thesis by blast
  qed
  have 3: "holds ?h' ?M r \<and>
           (?kd \<longrightarrow> (\<exists>t \<in> set (commands ?L). key_at h t = key_at h r \<and> holds ?h' ?M t))"
    if "r \<in> set (commands ?H)" and "key_at h r \<in> keys_of h ?L" for r
  proof -
    from that have f: "r \<in> set ?F" by simp
    have "held (descriptors h) ?P r"
      using f held_add_pairs_c[of r ?F "descriptors h" ?L "[]"] held_self[of r ?F "descriptors h"]
      by auto
    then have "held (descriptors h) (policy_cmds h a b) r" by (simp only: p)
    then have a: "holds ?h' ?M r" using assms(1,2) by (intro merged_holds) simp_all
    have b: "\<exists>t \<in> set (commands ?L). key_at h t = key_at h r \<and> holds ?h' ?M t" if kd: ?kd
    proof -
      from \<open>key_at h r \<in> keys_of h ?L\<close>
      have "\<exists>y \<in> set (commands ?L). cmd_eq (descriptors h ! y) (descriptors h ! r)"
        by (auto simp: keys_of_def key_at_def cmd_eq_def)
      then obtain t where t: "get_v (descriptors h) ?L r = Some t"
        by (cases "get_v (descriptors h) ?L r") (auto simp: get_v_def find_None_iff)
      from get_v_member[OF t] have tm: "t \<in> set (commands ?L)" "key_at h t = key_at h r"
        by (simp_all add: key_at_def)
      have "held (descriptors h) ?P t"
        using f t kd held_add_pairs_c[of t ?F "descriptors h" ?L "[]"] by auto
      then have "held (descriptors h) (policy_cmds h a b) t" by (simp only: p)
      then have "holds ?h' ?M t" using assms(1,2) by (intro merged_holds) simp_all
      with tm show ?thesis by blast
    qed
    from a b show ?thesis by blast
  qed
  have m: "min (length (commands ?A)) (length (commands ?B)) =
           min (length (commands ?H)) (length (commands ?L))"
    using H_L_cases[of ?B ?A] by auto
  have 4: "length (plain_cmds ?h' ?M) \<le> length (commands ?H) \<and>
           (distinct (map (key_at h) (commands ?H)) \<longrightarrow>
              length (plain_cmds ?h' ?M) \<le> min (length (commands ?A)) (length (commands ?B))) \<and>
           (get_system_cmds h a = [] \<and> get_system_cmds h b = [] \<longrightarrow> commands ?M = ?F)"
    if nkd: "\<not> ?kd"
  proof -
    have l: "length (plain_cmds ?h' ?M) \<le> length ?F"
      using merged_plain_length[OF assms(1,2)] nkd by (simp add: p)
    then have a: "length (plain_cmds ?h' ?M) \<le> length (commands ?H)"
      using length_filter_le[of "\<lambda>r. key_at h r \<in> keys_of h ?L" "commands ?H"] by linarith
    have b: "length (plain_cmds ?h' ?M) \<le> min (length (commands ?A)) (length (commands ?B))"
      if "distinct (map (key_at h) (commands ?H))"
      unfolding m using length_filter_keys_le[OF that, of ?L] l a by simp
    have c: "commands ?M = ?F" if "get_system_cmds h a = []" and "get_system_cmds h b = []"
      using merged_nosys[OF assms(1,2) that] nkd by (simp add: p)
    from a b c show ?thesis by blast
  qed
  from 1 2 3 4 show ?thesis by blast
qed

theorem intersect_merge_witness:
  "keys_of (after (a_heap [a_set ''Low'' 0 ''Union'' False [0, 1], a_set ''High'' 1 ''Intersect'' False [2, 3]]
                     [a_cmd ''look'' 1 10, a_cmd ''drop'' 2 10, a_cmd ''look'' 3 11, a_cmd ''get'' 4 11]) 0 1)
           (merged (a_heap [a_set ''Low'' 0 ''Union'' False [0, 1], a_set ''High'' 1 ''Intersect'' False [2, 3]]
                     [a_cmd ''look'' 1 10, a_cmd ''drop'' 2 10, a_cmd ''look'' 3 11, a_cmd ''get'' 4 11]) 0 1) =
     {''look''} \<and>
   commands (merged (a_heap [a_set ''Low'' 0 ''Union'' False [0, 1], a_set ''High'' 1 ''Intersect'' False [2, 3]]
                       [a_cmd ''look'' 1 10, a_cmd ''drop'' 2 10, a_cmd ''look'' 3 11, a_cmd ''get'' 4 11]) 0 1) =
     [2] \<and>
   holds (after (a_heap [a_set ''A'' 0 ''Intersect'' False [0], a_set ''B'' 0 ''Union'' True [1]]
                   [a_cmd ''look'' 1 10, a_cmd ''look'' 2 11]) 0 1)
         (merged (a_heap [a_set ''A'' 0 ''Intersect'' False [0], a_set ''B'' 0 ''Union'' True [1]]
                   [a_cmd ''look'' 1 10, a_cmd ''look'' 2 11]) 0 1) 1"
proof -
  let ?h = "a_heap [a_set ''Low'' 0 ''Union'' False [0, 1], a_set ''High'' 1 ''Intersect'' False [2, 3]]
              [a_cmd ''look'' 1 10, a_cmd ''drop'' 2 10, a_cmd ''look'' 3 11, a_cmd ''get'' 4 11]"
  let ?g = "a_heap [a_set ''A'' 0 ''Intersect'' False [0], a_set ''B'' 0 ''Union'' True [1]]
              [a_cmd ''look'' 1 10, a_cmd ''look'' 2 11]"
  have lh: "0 < length (cmdsets ?h)" "1 < length (cmdsets ?h)"
    and lg: "0 < length (cmdsets ?g)" "1 < length (cmdsets ?g)"
    by (simp_all add: a_heap_def)
  have mh: "effective_mergetype (cmdsets ?h ! 0) (cmdsets ?h ! 1) = ''Intersect''"
    and mg: "effective_mergetype (cmdsets ?g ! 0) (cmdsets ?g ! 1) = ''Intersect''"
    by (simp_all add: ex_simps)
  have nh: "get_system_cmds ?h 0 = [] \<and> get_system_cmds ?h 1 = []"
    and kh: "\<not> keeps_duplicates (cmdsets ?h ! 0) (cmdsets ?h ! 1)"
    and kg: "keeps_duplicates (cmdsets ?g ! 0) (cmdsets ?g ! 1)"
    by (simp_all add: ex_simps)
  note th = intersect_merge[OF lh mh] and tg = intersect_merge[OF lg mg]
  from th have "keys_of (after ?h 0 1) (merged ?h 0 1) =
      (keys_of ?h (cmdsets ?h ! 0) \<inter> keys_of ?h (cmdsets ?h ! 1)) \<union>
      sys_keys ?h (cmdsets ?h ! 0) \<union> sys_keys ?h (cmdsets ?h ! 1)" by (rule conjunct1)
  also have "\<dots> = {''look''}" by (simp add: ex_simps)
  finally have 1: "keys_of (after ?h 0 1) (merged ?h 0 1) = {''look''}" .
  from th nh kh have "commands (merged ?h 0 1) =
      filter (\<lambda>r. key_at ?h r \<in> keys_of ?h (L_of (cmdsets ?h ! 0) (cmdsets ?h ! 1)))
        (commands (H_of (cmdsets ?h ! 0) (cmdsets ?h ! 1)))" by blast
  also have "\<dots> = [2]" by (simp add: ex_simps)
  finally have 2: "commands (merged ?h 0 1) = [2]" .
  have r: "0 \<in> set (commands (H_of (cmdsets ?g ! 0) (cmdsets ?g ! 1)))"
    and k: "key_at ?g 0 \<in> keys_of ?g (L_of (cmdsets ?g ! 0) (cmdsets ?g ! 1))"
    and c: "set (commands (L_of (cmdsets ?g ! 0) (cmdsets ?g ! 1))) = {1}"
    by (simp_all add: ex_simps)
  from tg r k kg have "\<exists>t \<in> set (commands (L_of (cmdsets ?g ! 0) (cmdsets ?g ! 1))).
      key_at ?g t = key_at ?g 0 \<and> holds (after ?g 0 1) (merged ?g 0 1) t" by blast
  then have 3: "holds (after ?g 0 1) (merged ?g 0 1) 1" unfolding c by blast
  from 1 2 3 show ?thesis by (intro conjI)
qed

subsection \<open>What a merge changes\<close>




section \<open>Properties of the parser\<close>

subsection \<open>Candidate generation\<close>

lemma produce_loop_ok:
  "k \<le> length wl \<Longrightarrow>
   produce_loop k n wl cwl cands =
     Inr (cands @ map (\<lambda>i. CommandCandidate (name_of_words (cwl @ take (Suc i) wl))
                               (build_args [] (drop (Suc i) wl)) (n + i) None) [0..<k])"
proof (induction k arbitrary: n wl cwl cands)
  case 0
  show ?case by simp
next
  case (Suc k)
  then obtain w rest where wl: "wl = w # rest" by (cases wl) auto
  with Suc.prems have k: "k \<le> length rest" by simp
  show ?case
    unfolding wl
    by (simp add: Suc.IH[OF k] Let_def name_of_words_def map_upt_Suc del: upt_Suc)
qed

lemma produce_loop_short:
  "length wl < k \<Longrightarrow> produce_loop k n wl cwl cands = Inl IndexError"
proof (induction k arbitrary: n wl cwl cands)
  case 0
  then show ?case by simp
next
  case (Suc k)
  show ?case
  proof (cases wl)
    case Nil
    then show ?thesis by simp
  next
    case (Cons w rest)
    with Suc.prems have "length rest < k" by simp
    then show ?thesis unfolding Cons by (simp add: Suc.IH Let_def)
  qed
qed

lemma produce_candidates_ok:
  "nat k \<le> length ws \<Longrightarrow> produce_candidates k ws = Inr (map (nth_candidate ws) [0..<nat k])"
  by (simp add: produce_candidates_def produce_loop_ok nth_candidate_def)

lemma produce_candidates_short:
  "length ws < nat k \<Longrightarrow> produce_candidates k ws = Inl IndexError"
  by (simp add: produce_candidates_def produce_loop_short)

lemma nth_candidate_simps:
  "cmdname (nth_candidate ws i) = name_of_words (take (Suc i) ws)"
  "args (nth_candidate ws i) = build_args [] (drop (Suc i) ws)"
  "cand_priority (nth_candidate ws i) = i"
  "obj_key (nth_candidate ws i) = None"
  by (simp_all add: nth_candidate_def CommandCandidate_def)

text \<open>
  Claim C8, counterexample. With a budget of two words and a list of one word the second
  \<open>wordlist.pop(0)\<close> raises IndexError: no candidates are produced.
\<close>

theorem produce_candidates_counterexample:
  "produce_candidates 2 [''a''] = Inl IndexError"
  by code_simp

text \<open>
  Claim C8, as amended. For every list of words and every budget \<open>k\<close> from 0 to the number
  of words, candidate generation produces exactly \<open>k\<close> candidates; candidate \<open>i\<close> (from 0)
  has as name the first \<open>i + 1\<close> words, each stripped and lowercased, joined by single
  spaces, as arguments what the remaining words give, priority \<open>i\<close> and no object key.
  With \<open>COMMAND_MAXLEN = 3\<close>, the input \<open>hit orc with sword\<close> gives the three candidates
  \<open>hit\<close>, \<open>hit orc\<close>, \<open>hit orc with\<close> in this order, with arguments \<open>orc with sword\<close>,
  \<open>with sword\<close>, \<open>sword\<close>.
\<close>

theorem produce_candidates_within_budget:
  assumes "0 \<le> k" and "nat k \<le> length ws"
  shows "(\<exists>cs. produce_candidates k ws = Inr cs \<and> int (length cs) = k \<and>
            (\<forall>i < nat k.
               cmdname (cs ! i) = join_sp (map (\<lambda>word. lower (strip word)) (take (Suc i) ws)) \<and>
               args (cs ! i) = build_args [] (drop (Suc i) ws) \<and>
               cand_priority (cs ! i) = i \<and>
               obj_key (cs ! i) = None)) \<and>
         cmdparser 3 ''hit orc with sword'' =
           Inr [CommandCandidate ''hit'' ''orc with sword'' 0 None,
                CommandCandidate ''hit orc'' ''with sword'' 1 None,
                CommandCandidate ''hit orc with'' ''sword'' 2 None]"
proof -
  have e: "cmdparser 3 ''hit orc with sword'' =
           Inr [CommandCandidate ''hit'' ''orc with sword'' 0 None,
                CommandCandidate ''hit orc'' ''with sword'' 1 None,
                CommandCandidate ''hit orc with'' ''sword'' 2 None]"
    by code_simp
  show ?thesis
    using assms e
    by (simp add: produce_candidates_ok nth_candidate_simps name_of_words_def)
qed

theorem produce_candidates_within_budget_witness:
  "(\<exists>cs. produce_candidates 2 [''Hit'', ''Orc'', ''now''] = Inr cs \<and> int (length cs) = 2 \<and>
         cmdname (cs ! 0) = ''hit'' \<and> args (cs ! 0) = ''Orc now'' \<and> cand_priority (cs ! 0) = 0 \<and>
         obj_key (cs ! 0) = None \<and>
         cmdname (cs ! 1) = ''hit orc'' \<and> args (cs ! 1) = ''now'' \<and> cand_priority (cs ! 1) = 1 \<and>
         obj_key (cs ! 1) = None)"
proof -
  have h: "(0::int) \<le> 2" "nat 2 \<le> length [''Hit'', ''Orc'', ''now'']" by simp_all
  from produce_candidates_within_budget[OF h] obtain cs where
    cs: "produce_candidates 2 [''Hit'', ''Orc'', ''now''] = Inr cs" "int (length cs) = 2"
    and f: "\<forall>i < nat 2.
              cmdname (cs ! i) =
                join_sp (map (\<lambda>word. lower (strip word)) (take (Suc i) [''Hit'', ''Orc'', ''now''])) \<and>
              args (cs ! i) = build_args [] (drop (Suc i) [''Hit'', ''Orc'', ''now'']) \<and>
              cand_priority (cs ! i) = i \<and> obj_key (cs ! i) = None"
    by blast
  have n0: "join_sp (map (\<lambda>word. lower (strip word)) (take (Suc 0) [''Hit'', ''Orc'', ''now''])) = ''hit''"
    by code_simp
  have n1: "join_sp (map (\<lambda>word. lower (strip word)) (take (Suc 1) [''Hit'', ''Orc'', ''now''])) = ''hit orc''"
    by code_simp
  have a0: "build_args [] (drop (Suc 0) [''Hit'', ''Orc'', ''now'']) = ''Orc now''" by code_simp
  have a1: "build_args [] (drop (Suc 1) [''Hit'', ''Orc'', ''now'']) = ''now''" by code_simp
  from f have "cmdname (cs ! 0) = ''hit'' \<and> args (cs ! 0) = ''Orc now'' \<and>
               cand_priority (cs ! 0) = 0 \<and> obj_key (cs ! 0) = None"
    using n0 a0 by (metis nat_2 zero_less_Suc numeral_2_eq_2)
  moreover from f have "cmdname (cs ! 1) = ''hit orc'' \<and> args (cs ! 1) = ''now'' \<and>
               cand_priority (cs ! 1) = 1 \<and> obj_key (cs ! 1) = None"
    using n1 a1 by (metis nat_2 lessI numeral_2_eq_2 One_nat_def)
  ultimately show ?thesis using cs by blast
qed

subsection \<open>Words, spaces and special characters\<close>

lemma split_sp_not_Nil: "split_sp s \<noteq> []"
  by (induction s) (auto split: list.splits)

lemma isspace_space: "isspace (CHR '' '')"
  by (simp add: isspace_def)

lemma split_count:
  "only_spaces s \<Longrightarrow>
   length (split_ws s) \<le> length (split_sp s) \<and>
   ((s = [] \<or> hd s = CHR '' '') \<longrightarrow> length (split_ws s) < length (split_sp s))"
proof (induction s)
  case Nil
  show ?case by simp
next
  case (Cons c cs)
  then have os: "only_spaces cs" and c: "isspace c \<longrightarrow> c = CHR '' ''"
    by (simp_all add: only_spaces_def)
  note IH = Cons.IH[OF os]
  show ?case
  proof (cases "isspace c")
    case True
    with c have "c = CHR '' ''" by simp
    with IH show ?thesis by (simp add: isspace_space)
  next
    case False
    then have ne: "c \<noteq> CHR '' ''" using isspace_space by auto
    obtain w ws where sp: "split_sp cs = w # ws"
      using split_sp_not_Nil[of cs] by (cases "split_sp cs") auto
    show ?thesis
    proof (cases "cs = [] \<or> isspace (hd cs)")
      case True
      then have "cs = [] \<or> hd cs = CHR '' ''"
        using os by (cases cs) (auto simp: only_spaces_def)
      with IH have "length (split_ws cs) < length (split_sp cs)" by simp
      with False True ne sp show ?thesis by simp
    next
      case F2: False
      have "length (case split_ws cs of [] \<Rightarrow> [[c]] | w # ws \<Rightarrow> (c # w) # ws) \<le> length (split_sp cs)"
        using IH sp by (auto split: list.splits)
      with False F2 ne sp show ?thesis by simp
    qed
  qed
qed

lemma split_ws_le_split_sp: "only_spaces s \<Longrightarrow> length (split_ws s) \<le> length (split_sp s)"
  using split_count by blast

lemma split_sp_chars: "w \<in> set (split_sp s) \<Longrightarrow> set w \<subseteq> set s"
proof (induction s arbitrary: w)
  case Nil
  then show ?case by simp
next
  case (Cons c cs)
  obtain v vs where sp: "split_sp cs = v # vs"
    using split_sp_not_Nil[of cs] by (cases "split_sp cs") auto
  show ?case
  proof (cases "c = CHR '' ''")
    case True
    with Cons show ?thesis by auto
  next
    case False
    with Cons.prems sp have "w = c # v \<or> w \<in> set vs" by simp
    then show ?thesis
    proof
      assume "w = c # v"
      moreover have "set v \<subseteq> set cs" using Cons.IH[of v] sp by simp
      ultimately show ?thesis by auto
    next
      assume "w \<in> set vs"
      then have "set w \<subseteq> set cs" using Cons.IH[of w] sp by simp
      then show ?thesis by auto
    qed
  qed
qed

lemma take_split_sp_append:
  "n < length (split_sp xs) \<Longrightarrow> take n (split_sp (xs @ ys)) = take n (split_sp xs)"
proof (induction xs arbitrary: n)
  case Nil
  then show ?case by simp
next
  case (Cons c cs)
  obtain v vs where sp: "split_sp cs = v # vs"
    using split_sp_not_Nil[of cs] by (cases "split_sp cs") auto
  obtain v' vs' where sp': "split_sp (cs @ ys) = v' # vs'"
    using split_sp_not_Nil[of "cs @ ys"] by (cases "split_sp (cs @ ys)") auto
  show ?case
  proof (cases n)
    case 0
    then show ?thesis by simp
  next
    case (Suc n')
    show ?thesis
    proof (cases "c = CHR '' ''")
      case True
      with Cons.prems Suc have "n' < length (split_sp cs)" by simp
      with True Suc Cons.IH[of n'] show ?thesis by simp
    next
      case False
      with Cons.prems sp have "n < length (split_sp cs)" by simp
      from Cons.IH[OF this] have "take n (v' # vs') = take n (v # vs)" by (simp add: sp sp')
      with Suc have "v' = v" "take n' vs' = take n' vs" by simp_all
      with False sp sp' Suc show ?thesis by simp
    qed
  qed
qed

lemma REGEX_search_Some:
  "REGEX_search s = Some p \<Longrightarrow>
   p < length s \<and> s ! p \<in> set regex_chars \<and> special_free (take p s)"
proof (induction s arbitrary: p)
  case Nil
  then show ?case by simp
next
  case (Cons c cs)
  show ?case
  proof (cases "c \<in> set regex_chars")
    case True
    with Cons.prems show ?thesis by (simp add: special_free_def)
  next
    case False
    with Cons.prems obtain q where q: "REGEX_search cs = Some q" "p = Suc q"
      by (auto split: option.splits)
    from Cons.IH[OF q(1)] False q(2) show ?thesis by (simp add: special_free_def)
  qed
qed

lemma REGEX_search_None: "REGEX_search s = None \<Longrightarrow> special_free s"
  by (induction s) (auto simp: special_free_def split: if_splits option.splits)

lemma REGEX_search_0_iff: "REGEX_search s = Some 0 \<longleftrightarrow> (s \<noteq> [] \<and> hd s \<in> set regex_chars)"
  by (cases s) (auto split: option.splits)

lemma set_strip: "set (strip s) \<subseteq> set s"
proof -
  have "set (strip s) \<subseteq> set (rev (dropWhile isspace s))"
    unfolding strip_def using set_dropWhileD by fastforce
  also have "\<dots> \<subseteq> set s" using set_dropWhileD by fastforce
  finally show ?thesis .
qed

lemma hd_strip: "strip s \<noteq> [] \<Longrightarrow> \<not> isspace (hd (strip s))"
proof -
  assume ne: "strip s \<noteq> []"
  let ?t = "dropWhile isspace s"
  have "?t = rev (dropWhile isspace (rev ?t)) @ rev (takeWhile isspace (rev ?t))"
    by (metis rev_append rev_rev_ident takeWhile_dropWhile_id)
  then have t: "?t = strip s @ rev (takeWhile isspace (rev ?t))"
    by (simp only: strip_def)
  with ne have "hd ?t = hd (strip s)" by (metis hd_append2)
  moreover have "?t \<noteq> []" using t ne by (metis Nil_is_append_conv)
  then have "\<not> isspace (hd ?t)" by (rule hd_dropWhile)
  ultimately show ?thesis by simp
qed

lemma split_ws_not_Nil: "s \<noteq> [] \<Longrightarrow> \<not> isspace (hd s) \<Longrightarrow> split_ws s \<noteq> []"
  by (cases s) (auto split: list.splits)

lemma special_free_subset: "set t \<subseteq> set s \<Longrightarrow> special_free s \<Longrightarrow> special_free t"
  by (auto simp: special_free_def list_all_iff)

lemma only_spaces_subset: "set t \<subseteq> set s \<Longrightarrow> only_spaces s \<Longrightarrow> only_spaces t"
  by (auto simp: only_spaces_def list_all_iff)

lemma lower_char_special: "lower_char c \<in> set regex_chars \<Longrightarrow> c \<in> set regex_chars"
proof (cases "65 \<le> (of_char c :: nat) \<and> (of_char c :: nat) \<le> 90")
  case False
  assume a: "lower_char c \<in> set regex_chars"
  have "lower_char c = c" using False by (auto simp: lower_char_def Let_def)
  with a show ?thesis by simp
next
  case True
  assume a: "lower_char c \<in> set regex_chars"
  have l: "lower_char c = char_of (of_char c + 32 :: nat)"
    using True by (simp add: lower_char_def Let_def)
  have "(of_char (lower_char c) :: nat) = of_char c + 32"
    unfolding l using True by simp
  then have "97 \<le> (of_char (lower_char c) :: nat)" using True by simp
  moreover have "\<forall>r \<in> set regex_chars. (of_char r :: nat) < 97"
    by (simp add: regex_chars_def)
  ultimately show ?thesis using a by fastforce
qed

lemma special_free_lower: "special_free s \<Longrightarrow> special_free (lower s)"
  using lower_char_special by (auto simp: special_free_def lower_def list_all_iff)

lemma special_free_join:
  "\<forall>w \<in> set ws. special_free w \<Longrightarrow> special_free (join_sp ws)"
  by (induction ws rule: join_sp.induct)
     (auto simp: special_free_def regex_chars_def)

lemma special_free_name:
  "\<forall>w \<in> set ws. special_free w \<Longrightarrow> special_free (name_of_words ws)"
  unfolding name_of_words_def
  by (rule special_free_join)
     (auto intro: special_free_lower special_free_subset[OF set_strip])

lemma words_free:
  assumes "\<forall>w \<in> set (take k ws). special_free w" and "i < k"
  shows "special_free (cmdname (nth_candidate ws i))"
proof -
  have "set (take (Suc i) ws) \<subseteq> set (take k ws)"
    using assms(2) by (intro set_take_subset_set_take) simp
  with assms(1) have "\<forall>w \<in> set (take (Suc i) ws). special_free w" by blast
  then show ?thesis by (simp add: nth_candidate_simps special_free_name)
qed

lemma split_sp_words_free: "special_free s \<Longrightarrow> w \<in> set (split_sp s) \<Longrightarrow> special_free w"
  using split_sp_chars special_free_subset by blast

subsection \<open>The branches of the parser\<close>

lemma tag_eq: "tag k = (\<lambda>candidate. candidate\<lparr>obj_key := Some k\<rparr>)"
  by (simp add: fun_eq_iff tag_def)

lemma cmdparser_None:
  "REGEX_search (strip raw) = None \<Longrightarrow> cmdparser m raw = run_normally m (strip raw) []"
  by (subst cmdparser.simps) simp

lemma cmdparser_first:
  "REGEX_search (strip raw) = Some 0 \<Longrightarrow>
   cmdparser m raw = Inr [CommandCandidate [strip raw ! 0] (drop 1 (strip raw)) 0 None]"
  by (subst cmdparser.simps) (simp add: Let_def)

lemma cmdparser_object:
  "REGEX_search (strip raw) = Some p \<Longrightarrow> 0 < p \<Longrightarrow> object_form (strip raw) p \<Longrightarrow>
   cmdparser m raw =
     (case cmdparser m (drop (p + 2) (strip raw)) of
        Inl e \<Rightarrow> Inl e
      | Inr alts \<Rightarrow> run_to_end_char m (strip raw) p (map (tag (take p (strip raw))) alts))"
  by (subst cmdparser.simps) (simp add: Let_def object_form_def tag_eq split: sum.splits)

lemma cmdparser_plain:
  "REGEX_search (strip raw) = Some p \<Longrightarrow> 0 < p \<Longrightarrow> \<not> object_form (strip raw) p \<Longrightarrow>
   cmdparser m raw = run_to_end_char m (strip raw) p []"
  by (subst cmdparser.simps) (auto simp: Let_def object_form_def)

lemma run_normally_ok:
  assumes "only_spaces s"
  shows "run_normally m s cands = Inr (cands @ normal_candidates m s)"
proof -
  have "nat (min m (int (length (split_ws s)))) \<le> length (split_sp s)"
    using split_ws_le_split_sp[OF assms] by linarith
  then show ?thesis
    by (simp add: run_normally_def produce_candidates_ok normal_candidates_def)
qed

lemma run_to_end_char_ok:
  assumes "only_spaces s"
  shows "run_to_end_char m s p cands = Inr (cands @ plain_candidates m s p)"
proof (cases "int (length (split_ws (take p s))) \<le> m")
  case True
  have "only_spaces (take p s)"
    using assms by (rule only_spaces_subset[OF set_take_subset])
  then have "length (split_ws (take p s)) \<le> length (split_sp (take p s))"
    by (rule split_ws_le_split_sp)
  then have "nat (int (length (split_ws (take p s)))) \<le>
             length (split_sp (take p s) @ split_sp (drop p s))" by simp
  from produce_candidates_ok[OF this] True show ?thesis
    by (simp add: run_to_end_char_def plain_candidates_def)
next
  case False
  then show ?thesis
    by (simp add: run_to_end_char_def plain_candidates_def run_normally_ok[OF assms])
qed

lemma cmdparser_total:
  "only_spaces (strip raw) \<Longrightarrow> \<exists>cs. cmdparser m raw = Inr cs"
proof (induction raw rule: measure_induct_rule[of length])
  case (less raw)
  let ?s = "strip raw"
  have os: "only_spaces ?s" using less.prems .
  show ?case
  proof (cases "REGEX_search ?s")
    case None
    then show ?thesis by (simp add: cmdparser_None run_normally_ok[OF os])
  next
    case (Some p)
    show ?thesis
    proof (cases "p = 0")
      case True
      with Some show ?thesis by (simp add: cmdparser_first)
    next
      case False
      then have p: "0 < p" by simp
      show ?thesis
      proof (cases "object_form ?s p")
        case True
        have "p < length ?s" using Some by (simp add: REGEX_search_less)
        then have "length (drop (p + 2) ?s) < length ?s" by simp
        also have "\<dots> \<le> length raw" by (rule length_strip_le)
        finally have l: "length (drop (p + 2) ?s) < length raw" .
        have "only_spaces (strip (drop (p + 2) ?s))"
          using os by (rule only_spaces_subset[OF subset_trans[OF set_strip set_drop_subset]])
        from less.IH[OF l this] obtain alts where "cmdparser m (drop (p + 2) ?s) = Inr alts"
          by blast
        then show ?thesis
          by (simp add: cmdparser_object[OF Some p True] run_to_end_char_ok[OF os])
      next
        case F: False
        show ?thesis by (simp add: cmdparser_plain[OF Some p F] run_to_end_char_ok[OF os])
      qed
    qed
  qed
qed

lemma normal_unqualified: "c \<in> set (normal_candidates m s) \<Longrightarrow> obj_key c = None"
  by (auto simp: normal_candidates_def nth_candidate_simps)

lemma plain_unqualified: "c \<in> set (plain_candidates m s p) \<Longrightarrow> obj_key c = None"
  by (auto simp: plain_candidates_def normal_unqualified nth_candidate_simps split: if_splits)

lemma normal_names_free:
  assumes "REGEX_search s = None" and "c \<in> set (normal_candidates m s)"
  shows "special_free (cmdname c)"
proof -
  let ?k = "nat (min m (int (length (split_ws s))))"
  from assms(2) obtain i where i: "i < ?k" "c = nth_candidate (split_sp s) i"
    by (auto simp: normal_candidates_def)
  have "\<forall>w \<in> set (take ?k (split_sp s)). special_free w"
    using split_sp_words_free[OF REGEX_search_None[OF assms(1)]] by (blast dest: in_set_takeD)
  from words_free[OF this i(1)] i(2) show ?thesis by simp
qed

lemma plain_names_free:
  assumes "only_spaces s" and "REGEX_search s = Some p" and "c \<in> set (plain_candidates m s p)"
  shows "special_free (cmdname c)"
proof -
  let ?a = "take p s" and ?b = "drop p s"
  let ?k0 = "length (split_ws ?a)"
  have fa: "special_free ?a" using REGEX_search_Some[OF assms(2)] by simp
  have wa: "\<forall>w \<in> set (split_sp ?a). special_free w"
    using split_sp_words_free[OF fa] by blast
  have "only_spaces ?a" using assms(1) by (rule only_spaces_subset[OF set_take_subset])
  then have le: "?k0 \<le> length (split_sp ?a)" by (rule split_ws_le_split_sp)
  show ?thesis
  proof (cases "int ?k0 \<le> m")
    case True
    with assms(3) obtain i where i: "i < ?k0" "c = nth_candidate (split_sp ?a @ split_sp ?b) i"
      by (auto simp: plain_candidates_def)
    have "take ?k0 (split_sp ?a @ split_sp ?b) = take ?k0 (split_sp ?a)" using le by simp
    then have "\<forall>w \<in> set (take ?k0 (split_sp ?a @ split_sp ?b)). special_free w"
      using wa by (auto dest: in_set_takeD)
    from words_free[OF this i(1)] i(2) show ?thesis by simp
  next
    case False
    let ?k = "nat (min m (int (length (split_ws s))))"
    from False assms(3) obtain i where i: "i < ?k" "c = nth_candidate (split_sp s) i"
      by (auto simp: plain_candidates_def normal_candidates_def)
    have "0 < length (split_sp ?a)" using split_sp_not_Nil[of ?a] by simp
    with False le have "?k < length (split_sp ?a)" by linarith
    then have "take ?k (split_sp (?a @ ?b)) = take ?k (split_sp ?a)"
      by (rule take_split_sp_append)
    then have "\<forall>w \<in> set (take ?k (split_sp s)). special_free w"
      using wa by (auto dest: in_set_takeD)
    from words_free[OF this i(1)] i(2) show ?thesis by simp
  qed
qed

lemma plain_candidates_not_Nil:
  assumes "1 \<le> m" and "s \<noteq> []" and "\<not> isspace (hd s)" and "0 < p"
  shows "plain_candidates m s p \<noteq> []"
proof -
  have "take p s \<noteq> []" and "hd (take p s) = hd s" using assms(2,4) by (cases s; simp)+
  then have 1: "0 < length (split_ws (take p s))"
    using split_ws_not_Nil[of "take p s"] assms(3) by simp
  have 2: "0 < length (split_ws s)" using split_ws_not_Nil[OF assms(2,3)] by simp
  show ?thesis
  proof (cases "int (length (split_ws (take p s))) \<le> m")
    case True
    with 1 show ?thesis by (simp add: plain_candidates_def)
  next
    case False
    with assms(1) 2 show ?thesis
      by (auto simp: plain_candidates_def normal_candidates_def min_def)
  qed
qed

subsection \<open>A special character in front\<close>

text \<open>
  The backslash is in \<open>SPECIAL_CHARS\<close> but not in the class that \<open>REGEX\<close> matches: an
  input that begins with a backslash is parsed as any other word.
\<close>

lemma backslash_is_not_matched:
  "REGEX_search [CHR 0x5C] = None \<and>
   cmdparser 3 (CHR 0x5C # ''look x'') =
     Inr [CommandCandidate (CHR 0x5C # ''look'') ''x'' 0 None,
          CommandCandidate (CHR 0x5C # ''look x'') [] 1 None]"
  by code_simp

text \<open>
  Claim C7, counterexample. The input \<open>a's :x\<close> does not begin with a special
  character, yet one of its candidates has the name \<open>:\<close>: the rest after \<open>'s\<close> is
  parsed as an input of its own, and there the colon comes first.
\<close>

theorem special_first_counterexample:
  "cmdparser 3 ''a's :x'' =
     Inr [tag ''a'' (CommandCandidate '':'' ''x'' 0 None),
          CommandCandidate ''a'' [CHR 0x27, CHR ''s'', CHR '':'', CHR ''x''] 0 None] \<and>
   hd (strip ''a's :x'') = CHR ''a'' \<and> CHR ''a'' \<notin> set regex_chars \<and>
   CHR '':'' \<in> set regex_chars"
  by code_simp

text \<open>
  Claim C7, as amended. If the first character of the stripped input is one of the nine
  characters that \<open>REGEX\<close> matches (\<open>/ ' " : ; - # = !\<close>), the parser returns exactly
  one candidate: its name is that character, its arguments are all that follows,
  unchanged, its priority is 0 and it has no object key (so \<open>:\<close> alone gives the name
  \<open>:\<close> and no arguments). Otherwise, for an input that, once stripped, has spaces as
  its only whitespace characters, the parser returns candidates, and no candidate
  without an object key has one of the nine characters in its name.
\<close>

theorem special_first_or_names_free:
  "(strip raw = c # rest \<and> c \<in> set regex_chars \<longrightarrow>
      cmdparser m raw = Inr [CommandCandidate [c] rest 0 None]) \<and>
   (only_spaces (strip raw) \<and> (strip raw = [] \<or> hd (strip raw) \<notin> set regex_chars) \<longrightarrow>
      (\<exists>cs. cmdparser m raw = Inr cs \<and>
            (\<forall>cand \<in> set cs. obj_key cand = None \<longrightarrow> special_free (cmdname cand))))"
proof (intro conjI impI)
  assume a: "strip raw = c # rest \<and> c \<in> set regex_chars"
  then have "REGEX_search (strip raw) = Some 0" by simp
  from cmdparser_first[OF this] a show "cmdparser m raw = Inr [CommandCandidate [c] rest 0 None]"
    by simp
next
  let ?s = "strip raw"
  assume a: "only_spaces ?s \<and> (?s = [] \<or> hd ?s \<notin> set regex_chars)"
  then have os: "only_spaces ?s" by blast
  from a have n0: "REGEX_search ?s \<noteq> Some 0" by (auto simp: REGEX_search_0_iff)
  show "\<exists>cs. cmdparser m raw = Inr cs \<and>
          (\<forall>cand \<in> set cs. obj_key cand = None \<longrightarrow> special_free (cmdname cand))"
  proof (cases "REGEX_search ?s")
    case None
    then show ?thesis
      by (auto simp: cmdparser_None run_normally_ok[OF os] normal_names_free)
  next
    case (Some p)
    with n0 have p: "0 < p" by simp
    show ?thesis
    proof (cases "object_form ?s p")
      case True
      have "only_spaces (strip (drop (p + 2) ?s))"
        using os by (rule only_spaces_subset[OF subset_trans[OF set_strip set_drop_subset]])
      from cmdparser_total[OF this] obtain alts where "cmdparser m (drop (p + 2) ?s) = Inr alts"
        by blast
      then have "cmdparser m raw =
                   Inr (map (tag (take p ?s)) alts @ plain_candidates m ?s p)"
        by (simp add: cmdparser_object[OF Some p True] run_to_end_char_ok[OF os])
      then show ?thesis
        using plain_names_free[OF os Some] by (auto simp: tag_def)
    next
      case False
      have "cmdparser m raw = Inr (plain_candidates m ?s p)"
        by (simp add: cmdparser_plain[OF Some p False] run_to_end_char_ok[OF os])
      then show ?thesis using plain_names_free[OF os Some] by auto
    qed
  qed
qed

theorem special_first_or_names_free_witness:
  "cmdparser 3 '':'' = Inr [CommandCandidate '':'' [] 0 None] \<and>
   cmdparser 3 ''@create/drop ball'' = Inr [CommandCandidate ''@create'' ''/drop ball'' 0 None] \<and>
   special_free ''@create''"
proof -
  have 1: "strip '':'' = CHR '':'' # [] \<and> CHR '':'' \<in> set regex_chars" by code_simp
  have 2: "only_spaces (strip ''@create/drop ball'') \<and>
           (strip ''@create/drop ball'' = [] \<or> hd (strip ''@create/drop ball'') \<notin> set regex_chars)"
    by code_simp
  have e: "cmdparser 3 ''@create/drop ball'' =
             Inr [CommandCandidate ''@create'' ''/drop ball'' 0 None]"
    by code_simp
  from special_first_or_names_free[of "'':''" "CHR '':''" "[]" 3] 1
  have a: "cmdparser 3 '':'' = Inr [CommandCandidate '':'' [] 0 None]" by blast
  from special_first_or_names_free[of "''@create/drop ball''" _ _ 3] 2
  obtain cs where cs: "cmdparser 3 ''@create/drop ball'' = Inr cs"
    "\<forall>cand \<in> set cs. obj_key cand = None \<longrightarrow> special_free (cmdname cand)"
    by blast
  with e have "special_free (cmdname (CommandCandidate ''@create'' ''/drop ball'' 0 None))"
    by (simp add: CommandCandidate_def)
  then have "special_free ''@create''" by (simp add: CommandCandidate_def)
  with a e show ?thesis by blast
qed

subsection \<open>The form \<open><word>'s\<close>\<close>

text \<open>
  Claim C9 says that an input of the form \<open><word>'s <rest>\<close> gives the candidates of
  the parse of the rest, each with the word as object key, and then the candidates of the
  non-recursive reading. The parser counts the words with \<open>split(None)\<close>, which splits
  at every whitespace character, and lists them with \<open>split(" ")\<close>, which splits at
  spaces only. With \<open>COMMAND_MAXLEN = 3\<close>, the input of four words separated by tabs,
  then \<open>'s x\<close>, has the form of the claim; \<open>split(None)\<close> counts five words where
  \<open>split(" ")\<close> gives two, \<open>produce_candidates\<close> pops a word from the empty list, and
  the parser raises IndexError: no candidate is returned.
\<close>

theorem object_form_with_tabs:
  "cmdparser 3 [CHR ''a'', CHR 0x09, CHR ''b'', CHR 0x09, CHR ''c'', CHR 0x09, CHR ''d'',
                CHR 0x27, CHR ''s'', CHR '' '', CHR ''x''] = Inl IndexError"
  by code_simp

text \<open>
  Where the words are separated by spaces the parser does what claim C9 says. Let the
  stripped input have spaces as its only whitespace characters, and let its first
  special character be an apostrophe at an index \<open>p > 0\<close>, followed by \<open>s\<close> and a
  space. Then the text after \<open>'s\<close> is parsed, the non-recursive reading
  (\<open>run_to_end_char\<close>) gives its candidates, and the result is the candidates of the
  recursive parse, each with the text before the apostrophe as object key, followed by
  those of the non-recursive reading, which have no object key and are at least one when
  \<open>COMMAND_MAXLEN\<close> is at least 1. With \<open>COMMAND_MAXLEN = 3\<close>, the input
  \<open>red door's push hard\<close> gives \<open>push\<close> and \<open>push hard\<close> with object key \<open>red door\<close>,
  then \<open>red\<close> and \<open>red door\<close> without object key.
\<close>

theorem object_form_candidates:
  assumes "only_spaces (strip raw)" and "REGEX_search (strip raw) = Some p" and "0 < p"
    and "object_form (strip raw) p"
  shows "(\<exists>alts rest.
            cmdparser m (drop (p + 2) (strip raw)) = Inr alts \<and>
            run_to_end_char m (strip raw) p [] = Inr rest \<and>
            cmdparser m raw = Inr (map (tag (take p (strip raw))) alts @ rest) \<and>
            (\<forall>c \<in> set rest. obj_key c = None) \<and>
            (1 \<le> m \<longrightarrow> rest \<noteq> [])) \<and>
         cmdparser 3 ''red door's push hard'' =
           Inr [tag ''red door'' (CommandCandidate ''push'' ''hard'' 0 None),
                tag ''red door'' (CommandCandidate ''push hard'' [] 1 None),
                CommandCandidate ''red'' ''door's push hard'' 0 None,
                CommandCandidate ''red door'' (CHR 0x27 # ''s push hard'') 1 None]"
proof -
  let ?s = "strip raw"
  have os: "only_spaces ?s" using assms(1) .
  have "only_spaces (strip (drop (p + 2) ?s))"
    using os by (rule only_spaces_subset[OF subset_trans[OF set_strip set_drop_subset]])
  from cmdparser_total[OF this] obtain alts where a: "cmdparser m (drop (p + 2) ?s) = Inr alts"
    by blast
  have r: "run_to_end_char m ?s p [] = Inr (plain_candidates m ?s p)"
    by (simp add: run_to_end_char_ok[OF os])
  have c: "cmdparser m raw = Inr (map (tag (take p ?s)) alts @ plain_candidates m ?s p)"
    by (simp only: cmdparser_object[OF assms(2,3,4)] a sum.case run_to_end_char_ok[OF os])
  have ne: "?s \<noteq> []" using assms(2) by auto
  have n: "plain_candidates m ?s p \<noteq> []" if "1 \<le> m"
    using plain_candidates_not_Nil[OF that ne hd_strip[OF ne] assms(3)] .
  have g: "\<exists>alts rest.
            cmdparser m (drop (p + 2) ?s) = Inr alts \<and>
            run_to_end_char m ?s p [] = Inr rest \<and>
            cmdparser m raw = Inr (map (tag (take p ?s)) alts @ rest) \<and>
            (\<forall>c \<in> set rest. obj_key c = None) \<and>
            (1 \<le> m \<longrightarrow> rest \<noteq> [])"
    using a r c n plain_unqualified by blast
  have e: "cmdparser 3 ''red door's push hard'' =
           Inr [tag ''red door'' (CommandCandidate ''push'' ''hard'' 0 None),
                tag ''red door'' (CommandCandidate ''push hard'' [] 1 None),
                CommandCandidate ''red'' ''door's push hard'' 0 None,
                CommandCandidate ''red door'' (CHR 0x27 # ''s push hard'') 1 None]"
    by code_simp
  from g e show ?thesis by blast
qed

theorem object_form_candidates_witness:
  "only_spaces (strip ''red door's push hard'') \<and>
   REGEX_search (strip ''red door's push hard'') = Some 8 \<and>
   object_form (strip ''red door's push hard'') 8 \<and>
   (\<exists>alts rest.
      cmdparser 3 (drop (8 + 2) (strip ''red door's push hard'')) = Inr alts \<and>
      run_to_end_char 3 (strip ''red door's push hard'') 8 [] = Inr rest \<and>
      cmdparser 3 ''red door's push hard'' =
        Inr (map (tag (take 8 (strip ''red door's push hard''))) alts @ rest) \<and>
      rest \<noteq> [])"
proof -
  have 1: "only_spaces (strip ''red door's push hard'')" by code_simp
  have 2: "REGEX_search (strip ''red door's push hard'') = Some 8" by code_simp
  have 3: "object_form (strip ''red door's push hard'') 8" by code_simp
  have 4: "(0::nat) < 8" by simp
  from object_form_candidates[OF 1 2 4 3, of 3] 1 2 3 show ?thesis by auto
qed

subsection \<open>Empty input\<close>

lemma strip_all_space: "\<forall>c \<in> set s. isspace c \<Longrightarrow> strip s = []"
  by (auto simp: strip_def dropWhile_eq_Nil_conv dest: set_dropWhileD)

text \<open>
  Claim C10. An input that is empty or holds only whitespace is parsed, for every value
  of \<open>COMMAND_MAXLEN\<close>, to the empty list of candidates: the parser returns, and
  raises nothing.
\<close>

theorem cmdparser_whitespace_empty:
  assumes "\<forall>c \<in> set raw. isspace c"
  shows "cmdparser COMMAND_MAXLEN raw = Inr []"
proof -
  have s: "strip raw = []" using assms by (rule strip_all_space)
  have "nat (min COMMAND_MAXLEN (int (length (split_ws [])))) = 0" by simp
  then have "run_normally COMMAND_MAXLEN [] [] = Inr []"
    by (simp add: run_normally_def produce_candidates_def)
  then show ?thesis
    by (subst cmdparser.simps) (simp add: s)
qed

theorem cmdparser_whitespace_empty_witness:
  "isspace (CHR '' '') \<and> isspace (CHR 0x09) \<and>
   cmdparser 3 [CHR '' '', CHR 0x09, CHR '' ''] = Inr [] \<and> cmdparser 3 [] = Inr []"
proof -
  have h: "\<forall>c \<in> set [CHR '' '', CHR 0x09, CHR '' '']. isspace c" by (simp add: isspace_def)
  have e: "\<forall>c \<in> set ([] :: string). isspace c" by simp
  show ?thesis
    using h cmdparser_whitespace_empty [OF h, of 3] cmdparser_whitespace_empty [OF e, of 3]
    by simp
qed

end
